theory Spec2Isabelle
  imports Main "HOL-Library.Word"
begin

section \<open>The fallback prover of the chiavdf fast C API\<close>

text \<open>
  The development follows \<^verbatim>\<open>crates/chiavdf-fast/native/chiavdf_fast_fallback.cpp\<close>: the
  function \<^verbatim>\<open>prove_one_weso_slow\<close>, the six proving entry points that call it, and the
  configuration and diagnostics functions beside them.
\<close>

subsection \<open>Machine types\<close>

text \<open>
  The fixed-width integers of the C++ are words. A C++ \<^verbatim>\<open>int\<close> is a 32-bit word read
  through \<open>sint\<close>; signed overflow, which C++ leaves undefined, is an outcome of its own
  below. The arbitrary-precision \<^verbatim>\<open>integer\<close> of the library is \<open>int\<close>. A buffer given
  as a pointer and a size is the list of the bytes at the pointer, \<open>None\<close> for the null
  pointer and \<open>Some []\<close> for a size of zero. A thread is named by a number.
\<close>

type_synonym uint8_t = "8 word"
type_synonym uint32_t = "32 word"
type_synonym uint64_t = "64 word"
type_synonym c_int = "32 word"
type_synonym buffer = "uint8_t list option"
type_synonym thread = nat
type_synonym user_data = nat

datatype exn = Exn string

datatype callback = Callback nat

type_synonym ChiavdfProgressCallback = "callback option"

record ChiavdfByteArray =
  data :: "uint8_t list option"
  length' :: nat

definition empty_result :: ChiavdfByteArray where
  "empty_result = \<lparr>data = None, length' = 0\<rparr>"

subsection \<open>The code the file calls: the library and the caller's callback\<close>

text \<open>
  \<^verbatim>\<open>verifier.h\<close> and \<^verbatim>\<open>prover_slow.h\<close> belong to the chiavdf library and are not part of
  this file: the functions it calls from them are parameters, gathered in one record. A
  function that can throw returns \<open>Inl\<close> of the exception. The type \<open>'f\<close> is the library's
  \<^verbatim>\<open>form\<close>; \<open>form_a\<close> and \<open>form_b\<close> read its members \<^verbatim>\<open>a\<close> and \<^verbatim>\<open>b\<close>, and
  \<open>form_default\<close> is the default-constructed form a new vector is filled with.
  \<open>ApproximateParameters\<close> takes \<^verbatim>\<open>l\<close> and \<^verbatim>\<open>k\<close> by reference, in that order, and
  returns them here as a pair.

  The progress callback is code of the caller, reached through a function pointer it
  hands in. \<open>invoke\<close> is what calling the function a pointer points at does with the two
  arguments of line 131: it returns, or it throws, and a throw happens inside the
  \<^verbatim>\<open>try\<close> block like one of the library. A callback is taken to leave the variables
  of this file alone.
\<close>

record 'f prims =
  CreateDiscriminant :: "uint8_t list \<Rightarrow> c_int \<Rightarrow> exn + int"
  root :: "int \<Rightarrow> nat \<Rightarrow> exn + int"
  DeserializeForm :: "int \<Rightarrow> uint8_t list \<Rightarrow> exn + 'f"
  form_a :: "'f \<Rightarrow> int"
  form_b :: "'f \<Rightarrow> int"
  from_abd :: "int \<Rightarrow> int \<Rightarrow> int \<Rightarrow> exn + 'f"
  form_default :: 'f
  num_bits :: "int \<Rightarrow> c_int"
  ApproximateParameters :: "uint64_t \<Rightarrow> c_int \<Rightarrow> c_int \<Rightarrow> c_int \<times> c_int"
  nudupl_form :: "'f \<Rightarrow> int \<Rightarrow> int \<Rightarrow> exn + 'f"
  reduce :: "'f \<Rightarrow> exn + 'f"
  GenerateWesolowski ::
    "'f \<Rightarrow> 'f \<Rightarrow> int \<Rightarrow> 'f list \<Rightarrow> uint64_t \<Rightarrow> uint64_t \<Rightarrow> uint64_t \<Rightarrow> exn + 'f"
  SerializeForm :: "'f \<Rightarrow> c_int \<Rightarrow> exn + uint8_t list"
  invoke :: "callback \<Rightarrow> uint64_t \<Rightarrow> user_data \<Rightarrow> exn + unit"

subsection \<open>State of the process\<close>

text \<open>
  The file's namespace-level variables. The two \<^verbatim>\<open>thread_local\<close> ones are functions of
  the thread. Members \<^verbatim>\<open>k\<close>, \<^verbatim>\<open>l\<close>, \<^verbatim>\<open>tuned\<close> and \<^verbatim>\<open>set\<close> carry a prefix here.
\<close>

record LastStreamingParameters =
  last_k :: uint32_t
  last_l :: uint32_t
  last_tuned :: bool
  last_set :: bool

record LastStreamingStats =
  checkpoint_total_ns :: uint64_t
  checkpoint_event_total_ns :: uint64_t
  finalize_total_ns :: uint64_t
  checkpoint_calls :: uint64_t
  bucket_updates :: uint64_t
  stats_set :: bool

record state =
  init_once :: bool
  bucket_memory_budget_bytes :: uint64_t
  streaming_stats_enabled :: bool
  last_streaming_parameters :: "thread \<Rightarrow> LastStreamingParameters"
  last_streaming_stats :: "thread \<Rightarrow> LastStreamingStats"

definition default_parameters :: LastStreamingParameters where
  "default_parameters = \<lparr>last_k = 0, last_l = 0, last_tuned = False, last_set = False\<rparr>"

definition default_stats :: LastStreamingStats where
  "default_stats =
     \<lparr>checkpoint_total_ns = 0, checkpoint_event_total_ns = 0, finalize_total_ns = 0,
      checkpoint_calls = 0, bucket_updates = 0, stats_set = False\<rparr>"

definition initial_state :: state where
  "initial_state =
     \<lparr>init_once = False, bucket_memory_budget_bytes = 0, streaming_stats_enabled = False,
      last_streaming_parameters = (\<lambda>t. default_parameters),
      last_streaming_stats = (\<lambda>t. default_stats)\<rparr>"

subsection \<open>Observing a call\<close>

text \<open>
  What a proving call does besides returning is recorded as the list of the calls it makes
  into the library and to the progress callback, in order, together with the moment it
  enters the comparison against the reference. The list is an observation: the source has
  no such variable. The exits of the function are told apart in the same way; the source
  returns the byte array only.
\<close>

datatype 'f event =
    Init_chiavdf_runtime
  | CreateDiscriminant_call "uint8_t list" c_int
  | Root_call int
  | DeserializeForm_call int "uint8_t list"
  | From_abd_call int int int
  | ApproximateParameters_call uint64_t
  | Nudupl_form_call 'f int int
  | Reduce_call 'f
  | Progress_call callback uint64_t user_data
  | GenerateWesolowski_call 'f 'f int "'f list" uint64_t uint64_t uint64_t
  | SerializeForm_call 'f c_int
  | Validate_y_ref

datatype exit_point =
    Null_or_empty_input
  | Zero_iterations_or_size
  | Tuner_failure
  | Encoding_fault
  | Reference_missing
  | Reference_length_mismatch
  | Reference_content_mismatch
  | Exception_caught exn
  | Proof_done

datatype stop = Throw exn | Return exit_point ChiavdfByteArray | Undefined

datatype outcome = Returned exit_point ChiavdfByteArray | Undefined_behaviour

record 'f run =
  returned :: outcome
  events :: "'f event list"
  after :: state

type_synonym 'f world = "state \<times> 'f event list"
type_synonym ('f, 'a) step = "'f world \<Rightarrow> (stop + 'a) \<times> 'f world"

definition ok :: "'a \<Rightarrow> ('f, 'a) step" where
  "ok x w = (Inr x, w)"

definition stop_with :: "stop \<Rightarrow> ('f, 'a) step" where
  "stop_with a w = (Inl a, w)"

definition and_then :: "('f, 'a) step \<Rightarrow> ('a \<Rightarrow> ('f, 'b) step) \<Rightarrow> ('f, 'b) step" where
  "and_then m f w = (case m w of (Inl a, w') \<Rightarrow> (Inl a, w') | (Inr x, w') \<Rightarrow> f x w')"

definition emit :: "'f event \<Rightarrow> ('f, unit) step" where
  "emit ev w = (Inr (), (fst w, snd w @ [ev]))"

definition call :: "'f event \<Rightarrow> exn + 'a \<Rightarrow> ('f, 'a) step" where
  "call ev r w =
     ((case r of Inl e \<Rightarrow> Inl (Throw e) | Inr x \<Rightarrow> Inr x), (fst w, snd w @ [ev]))"

subsection \<open>\<^verbatim>\<open>prove_one_weso_slow\<close>\<close>

text \<open>\<^verbatim>\<open>std::call_once(init_once, init_chiavdf_runtime)\<close>.\<close>

definition call_once_init :: "('f, unit) step" where
  "call_once_init w =
     (if init_once (fst w) then (Inr (), w)
      else (Inr (), ((fst w)\<lparr>init_once := True\<rparr>, snd w @ [Init_chiavdf_runtime])))"

text \<open>Lines 95 to 103: the tuner's two values, each replaced by 1 when it is not positive.\<close>

definition select_parameters :: "'f prims \<Rightarrow> uint64_t \<Rightarrow> c_int \<times> c_int" where
  "select_parameters P num_iterations =
     (let (l0, k0) = ApproximateParameters P num_iterations 0 0;
          k = (if sint k0 \<le> 0 then 1 else k0);
          l = (if sint l0 \<le> 0 then 1 else l0)
      in (k, l))"

text \<open>Lines 109 to 113.\<close>

definition record_parameters :: "thread \<Rightarrow> c_int \<Rightarrow> c_int \<Rightarrow> ('f, unit) step" where
  "record_parameters t k l w =
     (Inr (),
      ((fst w)\<lparr>last_streaming_parameters := (last_streaming_parameters (fst w))
                  (t := \<lparr>last_k = k, last_l = l, last_tuned = False, last_set = True\<rparr>),
               last_streaming_stats := (last_streaming_stats (fst w)) (t := default_stats)\<rparr>,
       snd w))"

text \<open>
  Lines 120 to 123. \<^verbatim>\<open>cursor\<close> is the index into \<^verbatim>\<open>intermediates\<close> it points at; a write
  past the end of the vector is undefined.
\<close>

definition store_checkpoint ::
  "uint64_t \<Rightarrow> uint64_t \<Rightarrow> 'f \<Rightarrow> 'f list \<Rightarrow> nat \<Rightarrow> ('f, 'f list \<times> nat) step" where
  "store_checkpoint kl i y intermediates cursor =
     (if i mod kl = 0
      then (if cursor < length intermediates
            then ok (intermediates[cursor := y], Suc cursor)
            else stop_with Undefined)
      else ok (intermediates, cursor))"

text \<open>Lines 128 to 133.\<close>

definition report_progress ::
  "'f prims \<Rightarrow> uint64_t \<Rightarrow> uint64_t \<Rightarrow> ChiavdfProgressCallback \<Rightarrow> user_data \<Rightarrow> uint64_t \<Rightarrow>
   ('f, unit) step" where
  "report_progress P num_iterations progress_interval progress_cb progress_user_data i =
     (case progress_cb of
        None \<Rightarrow> ok ()
      | Some cb \<Rightarrow>
          if progress_interval \<noteq> 0
          then (let done = i + 1
                in if done = num_iterations \<or> done mod progress_interval = 0
                   then call (Progress_call cb done progress_user_data)
                          (invoke P cb done progress_user_data)
                   else ok ())
          else ok ())"

text \<open>The body of the loop, lines 120 to 133.\<close>

definition squaring_iteration ::
  "'f prims \<Rightarrow> int \<Rightarrow> int \<Rightarrow> uint64_t \<Rightarrow> uint64_t \<Rightarrow> uint64_t \<Rightarrow> ChiavdfProgressCallback \<Rightarrow>
   user_data \<Rightarrow> uint64_t \<Rightarrow> 'f \<Rightarrow> 'f list \<Rightarrow> nat \<Rightarrow> ('f, 'f \<times> 'f list \<times> nat) step" where
  "squaring_iteration P D L kl num_iterations progress_interval progress_cb progress_user_data
     i y intermediates cursor =
     and_then (store_checkpoint kl i y intermediates cursor) (\<lambda>(intermediates', cursor').
     and_then (call (Nudupl_form_call y D L) (nudupl_form P y D L)) (\<lambda>y1.
     and_then (call (Reduce_call y1) (reduce P y1)) (\<lambda>y2.
     and_then (report_progress P num_iterations progress_interval progress_cb
                 progress_user_data i) (\<lambda>_.
     ok (y2, intermediates', cursor')))))"

text \<open>
  The loop of line 119. The counter stays below \<^verbatim>\<open>num_iterations\<close>, so \<^verbatim>\<open>i++\<close> does not
  wrap.
\<close>

function squaring_loop ::
  "'f prims \<Rightarrow> int \<Rightarrow> int \<Rightarrow> uint64_t \<Rightarrow> uint64_t \<Rightarrow> uint64_t \<Rightarrow> ChiavdfProgressCallback \<Rightarrow>
   user_data \<Rightarrow> uint64_t \<Rightarrow> 'f \<Rightarrow> 'f list \<Rightarrow> nat \<Rightarrow> ('f, 'f \<times> 'f list) step" where
  "squaring_loop P D L kl num_iterations progress_interval progress_cb progress_user_data
     i y intermediates cursor w =
     (if i < num_iterations
      then (case squaring_iteration P D L kl num_iterations progress_interval progress_cb
                   progress_user_data i y intermediates cursor w of
              (Inl a, w') \<Rightarrow> (Inl a, w')
            | (Inr (y', intermediates', cursor'), w') \<Rightarrow>
                squaring_loop P D L kl num_iterations progress_interval progress_cb
                  progress_user_data (i + 1) y' intermediates' cursor' w')
      else (Inr (y, intermediates), w))"
  by pat_completeness auto
termination
proof (relation "measure (\<lambda>(P, D, L, kl, n, pi, cb, ud, i, y, ims, cur, w). unat n - unat i)")
  show "wf (measure (\<lambda>(P, D, L, kl, n, pi, cb, ud, i, y, ims, cur, w). unat n - unat i))"
    by simp
next
  fix P :: "'f prims" and D L :: int and kl n pi :: uint64_t
    and cb :: ChiavdfProgressCallback and ud :: user_data and i :: uint64_t and y :: 'f
    and ims :: "'f list" and cur :: nat and w :: "'f world"
    and x1 x2 x3 x4 x5 x6 x7
  assume lt: "i < n"
  then have lt': "unat i < unat n"
    by (simp add: word_less_nat_alt)
  have "unat n < 2 ^ 64"
    using unsigned_less [of n] by simp
  with lt' have "unat i + unat (1 :: uint64_t) < 2 ^ LENGTH(64)"
    by simp
  then have "unat (i + 1) = unat i + unat (1 :: uint64_t)"
    by (simp only: unat_add_lem [THEN iffD1])
  then have "unat (i + 1) = Suc (unat i)"
    by simp
  with lt' show
    "((P, D, L, kl, n, pi, cb, ud, i + 1, x5, x6, x7, x2),
      (P, D, L, kl, n, pi, cb, ud, i, y, ims, cur, w))
     \<in> measure (\<lambda>(P, D, L, kl, n, pi, cb, ud, i, y, ims, cur, w). unat n - unat i)"
    by simp
qed

declare squaring_loop.simps [simp del]

text \<open>Lines 152 to 162.\<close>

definition validate_y_ref :: "buffer \<Rightarrow> uint8_t list \<Rightarrow> ('f, unit) step" where
  "validate_y_ref y_ref_s y_serialized =
     and_then (emit Validate_y_ref) (\<lambda>_.
       case y_ref_s of
         None \<Rightarrow> stop_with (Return Reference_missing empty_result)
       | Some y_ref \<Rightarrow>
           if y_ref = [] then stop_with (Return Reference_missing empty_result)
           else if length y_serialized \<noteq> length y_ref
           then stop_with (Return Reference_length_mismatch empty_result)
           else if y_serialized \<noteq> take (length y_serialized) y_ref
           then stop_with (Return Reference_content_mismatch empty_result)
           else ok ())"

text \<open>
  The \<^verbatim>\<open>try\<close> block, lines 83 to 168, in the four parts the specification names.
  First the group and the input element, lines 83 to 93.
\<close>

definition prepare ::
  "'f prims \<Rightarrow> uint8_t list \<Rightarrow> uint8_t list \<Rightarrow> uint64_t \<Rightarrow>
   ('f, int \<times> int \<times> 'f \<times> 'f \<times> c_int) step" where
  "prepare P challenge_hash_bytes x_bytes discriminant_size_bits =
     and_then call_once_init (\<lambda>_.
     and_then (call (CreateDiscriminant_call challenge_hash_bytes (ucast discriminant_size_bits))
                 (CreateDiscriminant P challenge_hash_bytes (ucast discriminant_size_bits))) (\<lambda>D.
     and_then (call (Root_call (- D)) (root P (- D) 4)) (\<lambda>L.
     and_then (call (DeserializeForm_call D x_bytes) (DeserializeForm P D x_bytes)) (\<lambda>x.
     and_then (call (From_abd_call (form_a P x) (form_b P x) D)
                 (from_abd P (form_a P x) (form_b P x) D)) (\<lambda>y.
     ok (D, L, x, y, num_bits P D))))))"

text \<open>
  The plan, lines 95 to 113. \<^verbatim>\<open>int kl = k * l\<close> overflows when the product does not
  fit 32 bits, which is undefined; otherwise \<open>k * l\<close> on words is the product.
\<close>

definition tune :: "'f prims \<Rightarrow> thread \<Rightarrow> uint64_t \<Rightarrow> ('f, c_int \<times> c_int \<times> c_int) step" where
  "tune P t num_iterations =
     and_then (emit (ApproximateParameters_call num_iterations)) (\<lambda>_.
     let (k, l) = select_parameters P num_iterations in
     if 2 ^ 31 \<le> sint k * sint l then stop_with Undefined
     else
       let kl = k * l in
       if sint kl \<le> 0 then stop_with (Return Tuner_failure empty_result)
       else and_then (record_parameters t k l) (\<lambda>_. ok (k, l, kl)))"

text \<open>The checkpoint vector and the loop, lines 115 to 134. Allocation is taken to succeed.\<close>

definition squarings ::
  "'f prims \<Rightarrow> int \<Rightarrow> int \<Rightarrow> c_int \<Rightarrow> uint64_t \<Rightarrow> uint64_t \<Rightarrow> ChiavdfProgressCallback \<Rightarrow>
   user_data \<Rightarrow> 'f \<Rightarrow> ('f, 'f \<times> 'f list) step" where
  "squarings P D L kl num_iterations progress_interval progress_cb progress_user_data y =
     (let size_vec = (num_iterations + scast kl - 1) div scast kl;
          intermediates = replicate (unat size_vec) (form_default P)
      in squaring_loop P D L (scast kl) num_iterations progress_interval progress_cb
           progress_user_data 0 y intermediates 0)"

text \<open>The check of the two encodings, the comparison and the output buffer, lines 148 to 168.\<close>

definition conclude ::
  "buffer \<Rightarrow> bool \<Rightarrow> uint8_t list \<Rightarrow> uint8_t list \<Rightarrow> ('f, ChiavdfByteArray) step" where
  "conclude y_ref_s check_y_ref y_serialized proof_serialized =
     (if y_serialized = [] \<or> proof_serialized = []
      then stop_with (Return Encoding_fault empty_result)
      else
        and_then (if check_y_ref then validate_y_ref y_ref_s y_serialized else ok ()) (\<lambda>_.
        ok \<lparr>data = Some (y_serialized @ proof_serialized),
            length' = length y_serialized + length proof_serialized\<rparr>))"

text \<open>Proof and serialization, lines 136 to 147, and then the rest.\<close>

definition finish ::
  "'f prims \<Rightarrow> 'f \<Rightarrow> int \<Rightarrow> c_int \<Rightarrow> uint64_t \<Rightarrow> c_int \<Rightarrow> c_int \<Rightarrow> buffer \<Rightarrow> bool \<Rightarrow>
   'f \<Rightarrow> 'f list \<Rightarrow> ('f, ChiavdfByteArray) step" where
  "finish P x D d_bits num_iterations k l y_ref_s check_y_ref y intermediates =
     and_then (call (GenerateWesolowski_call y x D intermediates num_iterations
                       (scast k) (scast l))
                 (GenerateWesolowski P y x D intermediates num_iterations
                    (scast k) (scast l))) (\<lambda>wproof.
     and_then (call (SerializeForm_call y d_bits) (SerializeForm P y d_bits)) (\<lambda>y_serialized.
     and_then (call (SerializeForm_call wproof d_bits) (SerializeForm P wproof d_bits))
       (\<lambda>proof_serialized.
     conclude y_ref_s check_y_ref y_serialized proof_serialized)))"

definition try_block ::
  "'f prims \<Rightarrow> thread \<Rightarrow> uint8_t list \<Rightarrow> uint8_t list \<Rightarrow> buffer \<Rightarrow> bool \<Rightarrow> uint64_t \<Rightarrow> uint64_t \<Rightarrow>
   uint64_t \<Rightarrow> ChiavdfProgressCallback \<Rightarrow> user_data \<Rightarrow> ('f, ChiavdfByteArray) step" where
  "try_block P t challenge_hash_bytes x_bytes y_ref_s check_y_ref discriminant_size_bits
     num_iterations progress_interval progress_cb progress_user_data =
     and_then (prepare P challenge_hash_bytes x_bytes discriminant_size_bits)
       (\<lambda>(D, L, x, y, d_bits).
     and_then (tune P t num_iterations) (\<lambda>(k, l, kl).
     and_then (squarings P D L kl num_iterations progress_interval progress_cb
                 progress_user_data y) (\<lambda>(y, intermediates).
     finish P x D d_bits num_iterations k l y_ref_s check_y_ref y intermediates)))"

text \<open>
  The whole function: the two guards of lines 75 to 80, then the \<^verbatim>\<open>try\<close> block, whose
  \<^verbatim>\<open>catch (...)\<close> turns every exception into the empty result.
\<close>

definition prove_one_weso_slow ::
  "'f prims \<Rightarrow> thread \<Rightarrow> buffer \<Rightarrow> buffer \<Rightarrow> buffer \<Rightarrow> bool \<Rightarrow> uint64_t \<Rightarrow> uint64_t \<Rightarrow>
   uint64_t \<Rightarrow> ChiavdfProgressCallback \<Rightarrow> user_data \<Rightarrow> state \<Rightarrow> 'f run" where
  "prove_one_weso_slow P t challenge_hash x_s y_ref_s check_y_ref discriminant_size_bits
     num_iterations progress_interval progress_cb progress_user_data s =
     (case (challenge_hash, x_s) of
        (Some challenge_hash_bytes, Some x_bytes) \<Rightarrow>
          if challenge_hash_bytes = [] \<or> x_bytes = []
          then \<lparr>returned = Returned Null_or_empty_input empty_result, events = [], after = s\<rparr>
          else if num_iterations = 0 \<or> discriminant_size_bits = 0
          then \<lparr>returned = Returned Zero_iterations_or_size empty_result, events = [],
                after = s\<rparr>
          else
            (case try_block P t challenge_hash_bytes x_bytes y_ref_s check_y_ref
                    discriminant_size_bits num_iterations progress_interval progress_cb
                    progress_user_data (s, []) of
               (Inl (Throw e), w) \<Rightarrow>
                 \<lparr>returned = Returned (Exception_caught e) empty_result, events = snd w,
                  after = fst w\<rparr>
             | (Inl (Return p r), w) \<Rightarrow>
                 \<lparr>returned = Returned p r, events = snd w, after = fst w\<rparr>
             | (Inl Undefined, w) \<Rightarrow>
                 \<lparr>returned = Undefined_behaviour, events = snd w, after = fst w\<rparr>
             | (Inr r, w) \<Rightarrow>
                 \<lparr>returned = Returned Proof_done r, events = snd w, after = fst w\<rparr>)
      | _ \<Rightarrow> \<lparr>returned = Returned Null_or_empty_input empty_result, events = [], after = s\<rparr>)"

subsection \<open>Configuration and diagnostics\<close>

definition chiavdf_set_bucket_memory_budget_bytes :: "uint64_t \<Rightarrow> state \<Rightarrow> state" where
  "chiavdf_set_bucket_memory_budget_bytes bytes s = s\<lparr>bucket_memory_budget_bytes := bytes\<rparr>"

definition chiavdf_set_enable_streaming_stats :: "thread \<Rightarrow> bool \<Rightarrow> state \<Rightarrow> state" where
  "chiavdf_set_enable_streaming_stats t enable s =
     s\<lparr>streaming_stats_enabled := enable,
       last_streaming_stats := (last_streaming_stats s) (t := default_stats)\<rparr>"

text \<open>
  An output pointer is \<open>None\<close> when null and \<open>Some v\<close> when it points at a cell holding
  \<open>v\<close>; the cells come back with the result.
\<close>

definition chiavdf_get_last_streaming_parameters ::
  "thread \<Rightarrow> uint32_t option \<Rightarrow> uint32_t option \<Rightarrow> bool option \<Rightarrow> state \<Rightarrow>
   bool \<times> uint32_t option \<times> uint32_t option \<times> bool option" where
  "chiavdf_get_last_streaming_parameters t out_k out_l out_tuned s =
     (if out_k = None \<or> out_l = None \<or> out_tuned = None
      then (False, out_k, out_l, out_tuned)
      else if \<not> last_set (last_streaming_parameters s t)
      then (False, out_k, out_l, out_tuned)
      else (True, Some (last_k (last_streaming_parameters s t)),
            Some (last_l (last_streaming_parameters s t)),
            Some (last_tuned (last_streaming_parameters s t))))"

definition chiavdf_get_last_streaming_stats ::
  "thread \<Rightarrow> uint64_t option \<Rightarrow> uint64_t option \<Rightarrow> uint64_t option \<Rightarrow> uint64_t option \<Rightarrow>
   uint64_t option \<Rightarrow> state \<Rightarrow>
   bool \<times> uint64_t option \<times> uint64_t option \<times> uint64_t option \<times> uint64_t option \<times>
   uint64_t option" where
  "chiavdf_get_last_streaming_stats t out_checkpoint_total_ns out_checkpoint_event_total_ns
     out_finalize_total_ns out_checkpoint_calls out_bucket_updates s =
     (False, out_checkpoint_total_ns, out_checkpoint_event_total_ns, out_finalize_total_ns,
      out_checkpoint_calls, out_bucket_updates)"

subsection \<open>The proving entry points\<close>

definition chiavdf_prove_one_weso_fast ::
  "'f prims \<Rightarrow> thread \<Rightarrow> buffer \<Rightarrow> buffer \<Rightarrow> uint64_t \<Rightarrow> uint64_t \<Rightarrow> state \<Rightarrow> 'f run" where
  "chiavdf_prove_one_weso_fast P t challenge_hash x_s discriminant_size_bits num_iterations =
     prove_one_weso_slow P t challenge_hash x_s None False discriminant_size_bits
       num_iterations 0 None 0"

definition chiavdf_prove_one_weso_fast_with_progress ::
  "'f prims \<Rightarrow> thread \<Rightarrow> buffer \<Rightarrow> buffer \<Rightarrow> uint64_t \<Rightarrow> uint64_t \<Rightarrow> uint64_t \<Rightarrow>
   ChiavdfProgressCallback \<Rightarrow> user_data \<Rightarrow> state \<Rightarrow> 'f run" where
  "chiavdf_prove_one_weso_fast_with_progress P t challenge_hash x_s discriminant_size_bits
     num_iterations progress_interval progress_cb progress_user_data =
     prove_one_weso_slow P t challenge_hash x_s None False discriminant_size_bits
       num_iterations progress_interval progress_cb progress_user_data"

definition chiavdf_prove_one_weso_fast_streaming ::
  "'f prims \<Rightarrow> thread \<Rightarrow> buffer \<Rightarrow> buffer \<Rightarrow> buffer \<Rightarrow> uint64_t \<Rightarrow> uint64_t \<Rightarrow> state \<Rightarrow> 'f run" where
  "chiavdf_prove_one_weso_fast_streaming P t challenge_hash x_s y_ref_s
     discriminant_size_bits num_iterations =
     prove_one_weso_slow P t challenge_hash x_s y_ref_s True discriminant_size_bits
       num_iterations 0 None 0"

definition chiavdf_prove_one_weso_fast_streaming_with_progress ::
  "'f prims \<Rightarrow> thread \<Rightarrow> buffer \<Rightarrow> buffer \<Rightarrow> buffer \<Rightarrow> uint64_t \<Rightarrow> uint64_t \<Rightarrow> uint64_t \<Rightarrow>
   ChiavdfProgressCallback \<Rightarrow> user_data \<Rightarrow> state \<Rightarrow> 'f run" where
  "chiavdf_prove_one_weso_fast_streaming_with_progress P t challenge_hash x_s y_ref_s
     discriminant_size_bits num_iterations progress_interval progress_cb progress_user_data =
     prove_one_weso_slow P t challenge_hash x_s y_ref_s True discriminant_size_bits
       num_iterations progress_interval progress_cb progress_user_data"

definition chiavdf_prove_one_weso_fast_streaming_getblock_opt ::
  "'f prims \<Rightarrow> thread \<Rightarrow> buffer \<Rightarrow> buffer \<Rightarrow> buffer \<Rightarrow> uint64_t \<Rightarrow> uint64_t \<Rightarrow> state \<Rightarrow> 'f run" where
  "chiavdf_prove_one_weso_fast_streaming_getblock_opt P t challenge_hash x_s y_ref_s
     discriminant_size_bits num_iterations =
     prove_one_weso_slow P t challenge_hash x_s y_ref_s True discriminant_size_bits
       num_iterations 0 None 0"

definition chiavdf_prove_one_weso_fast_streaming_getblock_opt_with_progress ::
  "'f prims \<Rightarrow> thread \<Rightarrow> buffer \<Rightarrow> buffer \<Rightarrow> buffer \<Rightarrow> uint64_t \<Rightarrow> uint64_t \<Rightarrow> uint64_t \<Rightarrow>
   ChiavdfProgressCallback \<Rightarrow> user_data \<Rightarrow> state \<Rightarrow> 'f run" where
  "chiavdf_prove_one_weso_fast_streaming_getblock_opt_with_progress P t challenge_hash x_s
     y_ref_s discriminant_size_bits num_iterations progress_interval progress_cb
     progress_user_data =
     prove_one_weso_slow P t challenge_hash x_s y_ref_s True discriminant_size_bits
       num_iterations progress_interval progress_cb progress_user_data"

subsection \<open>A small instance of the library\<close>

text \<open>
  To run the model, the library is instantiated with arithmetic modulo 251: a form is an
  integer, squaring multiplies it by itself and reduction takes the remainder. The tuner's
  two values are a parameter of the instance, and every callback returns. It serves
  evaluation only; every theorem below is about an arbitrary library and arbitrary
  callbacks.
\<close>

definition toy_prims :: "c_int \<times> c_int \<Rightarrow> int prims" where
  "toy_prims lk =
     \<lparr>CreateDiscriminant = (\<lambda>bs bits. if sint bits \<le> 0 then Inl (Exn ''bits'') else Inr (- 251)),
      root = (\<lambda>a n. Inr 3),
      DeserializeForm =
        (\<lambda>D bs. case bs of
                  [b] \<Rightarrow> if b \<noteq> 0 \<and> uint b < - D then Inr (uint b) else Inl (Exn ''form'')
                | _ \<Rightarrow> Inl (Exn ''form'')),
      form_a = (\<lambda>y. y),
      form_b = (\<lambda>y. 0),
      from_abd = (\<lambda>a b D. Inr a),
      form_default = 0,
      num_bits = (\<lambda>D. 8),
      ApproximateParameters = (\<lambda>T l k. lk),
      nudupl_form = (\<lambda>y D L. Inr (y * y)),
      reduce = (\<lambda>y. Inr (y mod 251)),
      GenerateWesolowski = (\<lambda>y x D ims T k l. Inr (1 + sum_list ims mod 250)),
      SerializeForm = (\<lambda>y d. Inr [word_of_int y]),
      invoke = (\<lambda>cb d ud. Inr ())\<rparr>"

text \<open>The same library with a reduction that throws on the form 16.\<close>

definition toy_throwing :: "int prims" where
  "toy_throwing =
     (toy_prims (2, 1))
       \<lparr>reduce := (\<lambda>y. if y = 16 then Inl (Exn ''reduce'') else Inr (y mod 251))\<rparr>"

text \<open>The same library with a reduction that throws on 625, the fifth one of a run from 2.\<close>

definition toy_late :: "int prims" where
  "toy_late =
     (toy_prims (2, 1))
       \<lparr>reduce := (\<lambda>y. if y = 625 then Inl (Exn ''reduce'') else Inr (y mod 251))\<rparr>"

text \<open>The same library with a callback that throws when it is given the count 4.\<close>

definition toy_loud :: "int prims" where
  "toy_loud =
     (toy_prims (2, 1))
       \<lparr>invoke := (\<lambda>cb d ud. if d = 4 then Inl (Exn ''callback'') else Inr ())\<rparr>"

text \<open>The same library with a serialization that comes back empty for the form 123.\<close>

definition toy_mute :: "int prims" where
  "toy_mute =
     (toy_prims (2, 1))
       \<lparr>SerializeForm := (\<lambda>y d. if y = 123 then Inr [] else Inr [word_of_int y])\<rparr>"

subsection \<open>Notions the statements use\<close>

text \<open>The number of checkpoints the specification gives: \<open>n\<close> over \<open>k\<close>, rounded up.\<close>

definition ceil_div :: "nat \<Rightarrow> nat \<Rightarrow> nat" where
  "ceil_div n k = (n + k - 1) div k"

text \<open>
  One squaring followed by its reduction, and \<open>n\<close> of them in a row: the specification's
  ``squared exactly \<open>n\<close> times with a reduction applied after each squaring''.
\<close>

definition square_reduce :: "'f prims \<Rightarrow> int \<Rightarrow> int \<Rightarrow> 'f \<Rightarrow> exn + 'f" where
  "square_reduce P D L y =
     (case nudupl_form P y D L of Inl e \<Rightarrow> Inl e | Inr y1 \<Rightarrow> reduce P y1)"

fun square_n :: "'f prims \<Rightarrow> int \<Rightarrow> int \<Rightarrow> nat \<Rightarrow> 'f \<Rightarrow> exn + 'f" where
  "square_n P D L 0 y = Inr y"
| "square_n P D L (Suc n) y =
     (case square_n P D L n y of Inl e \<Rightarrow> Inl e | Inr z \<Rightarrow> square_reduce P D L z)"

text \<open>The plan of a call, and the spacing of the checkpoints it gives.\<close>

definition plan_k :: "'f prims \<Rightarrow> uint64_t \<Rightarrow> c_int" where
  "plan_k P num_iterations = fst (select_parameters P num_iterations)"

definition plan_l :: "'f prims \<Rightarrow> uint64_t \<Rightarrow> c_int" where
  "plan_l P num_iterations = snd (select_parameters P num_iterations)"

definition plan_kl :: "'f prims \<Rightarrow> uint64_t \<Rightarrow> nat" where
  "plan_kl P num_iterations =
     nat (sint (plan_k P num_iterations) * sint (plan_l P num_iterations))"

text \<open>Reading the events of a call.\<close>

fun is_squaring :: "'f event \<Rightarrow> bool" where
  "is_squaring (Nudupl_form_call y D L) = True"
| "is_squaring _ = False"

fun is_proof_generation :: "'f event \<Rightarrow> bool" where
  "is_proof_generation (GenerateWesolowski_call y x D ims n k l) = True"
| "is_proof_generation _ = False"

fun is_progress :: "'f event \<Rightarrow> bool" where
  "is_progress (Progress_call cb d ud) = True"
| "is_progress _ = False"

fun reported :: "'f event \<Rightarrow> uint64_t" where
  "reported (Progress_call cb d ud) = d"
| "reported _ = 0"

definition progress_calls :: "'f event list \<Rightarrow> 'f event list" where
  "progress_calls evs = filter is_progress evs"

text \<open>The exception a recorded call into the library or to the callback throws, if it throws.\<close>

definition thrown :: "exn + 'a \<Rightarrow> exn option" where
  "thrown r = (case r of Inl e \<Rightarrow> Some e | Inr x \<Rightarrow> None)"

fun thrown_by :: "'f prims \<Rightarrow> 'f event \<Rightarrow> exn option" where
  "thrown_by P (CreateDiscriminant_call bs bits) = thrown (CreateDiscriminant P bs bits)"
| "thrown_by P (Root_call a) = thrown (root P a 4)"
| "thrown_by P (DeserializeForm_call D bs) = thrown (DeserializeForm P D bs)"
| "thrown_by P (From_abd_call a b D) = thrown (from_abd P a b D)"
| "thrown_by P (Nudupl_form_call y D L) = thrown (nudupl_form P y D L)"
| "thrown_by P (Reduce_call y) = thrown (reduce P y)"
| "thrown_by P (GenerateWesolowski_call y x D ims n k l) =
     thrown (GenerateWesolowski P y x D ims n k l)"
| "thrown_by P (SerializeForm_call y d) = thrown (SerializeForm P y d)"
| "thrown_by P (Progress_call cb d ud) = thrown (invoke P cb d ud)"
| "thrown_by P _ = None"

text \<open>No call of the list throws.\<close>

definition quiet :: "'f prims \<Rightarrow> 'f event list \<Rightarrow> bool" where
  "quiet P evs = (\<forall>ev\<in>set evs. thrown_by P ev = None)"

text \<open>
  How a part of the operation that started with no throwing call can end: when it ends in
  an exception, the last call is the one that threw it and no earlier call throws;
  otherwise no call throws.
\<close>

definition exn_shape :: "'f prims \<Rightarrow> stop + 'a \<Rightarrow> 'f event list \<Rightarrow> bool" where
  "exn_shape P r evs =
     (case r of
        Inl (Throw e) \<Rightarrow> evs \<noteq> [] \<and> thrown_by P (last evs) = Some e \<and> quiet P (butlast evs)
      | _ \<Rightarrow> quiet P evs)"

text \<open>
  The part of the operation an event belongs to: preparation 0, tuning 1, the squaring
  loop 2, proof generation 3, serialization 4, comparison with the reference 5.
\<close>

fun stage :: "'f event \<Rightarrow> nat" where
  "stage (ApproximateParameters_call n) = 1"
| "stage (Nudupl_form_call y D L) = 2"
| "stage (Reduce_call y) = 2"
| "stage (Progress_call cb d ud) = 2"
| "stage (GenerateWesolowski_call y x D ims n k l) = 3"
| "stage (SerializeForm_call y d) = 4"
| "stage Validate_y_ref = 5"
| "stage _ = 0"

text \<open>A world reached from another by events of the squaring stage only, the state left alone.\<close>

definition loop_extends :: "'f world \<Rightarrow> 'f world \<Rightarrow> bool" where
  "loop_extends w w' =
     (fst w' = fst w \<and> (\<exists>new. snd w' = snd w @ new \<and> (\<forall>ev\<in>set new. stage ev = 2)))"

text \<open>The invariant of the loop: the running element, the cursor and the checkpoints.\<close>

definition checkpoints_inv ::
  "'f prims \<Rightarrow> int \<Rightarrow> int \<Rightarrow> nat \<Rightarrow> nat \<Rightarrow> nat \<Rightarrow> 'f \<Rightarrow> uint64_t \<Rightarrow> 'f \<Rightarrow> 'f list \<Rightarrow> nat \<Rightarrow> bool" where
  "checkpoints_inv P D L K T N y0 i y ims cur =
     (unat i \<le> T \<and> square_n P D L (unat i) y0 = Inr y \<and> cur = ceil_div (unat i) K \<and>
      cur \<le> length ims \<and> length ims = N \<and>
      (\<forall>j<cur. square_n P D L (j * K) y0 = Inr (ims ! j)))"

text \<open>
  The exit the comparison of lines 152 to 162 takes for a reference and an encoding of
  \<open>y\<close>, or \<open>None\<close> when the two agree.
\<close>

definition reference_exit :: "buffer \<Rightarrow> uint8_t list \<Rightarrow> exit_point option" where
  "reference_exit y_ref_s y_serialized =
     (case y_ref_s of
        None \<Rightarrow> Some Reference_missing
      | Some y_ref \<Rightarrow>
          if y_ref = [] then Some Reference_missing
          else if length y_serialized \<noteq> length y_ref then Some Reference_length_mismatch
          else if y_serialized \<noteq> y_ref then Some Reference_content_mismatch
          else None)"

definition due :: "nat \<Rightarrow> nat \<Rightarrow> nat \<Rightarrow> nat list" where
  "due T p m = filter (\<lambda>d. d = T \<or> d mod p = 0) [1..<Suc m]"

text \<open>
  A squaring is completed when its reduction has returned: \<open>completed\<close> counts these in a
  list of events, and \<open>completed_at\<close> gives, for each call of the callback in the list, the
  number of squarings completed when the call is made, counting on from \<open>m\<close>.
\<close>

fun completes :: "'f prims \<Rightarrow> 'f event \<Rightarrow> bool" where
  "completes P (Reduce_call y) = (thrown (reduce P y) = None)"
| "completes P _ = False"

definition completed :: "'f prims \<Rightarrow> 'f event list \<Rightarrow> nat" where
  "completed P evs = length (filter (completes P) evs)"

fun completed_at :: "'f prims \<Rightarrow> nat \<Rightarrow> 'f event list \<Rightarrow> nat list" where
  "completed_at P m [] = []"
| "completed_at P m (ev # evs) =
     (if is_progress ev then m # completed_at P m evs
      else completed_at P (if completes P ev then Suc m else m) evs)"

text \<open>
  The order the specification asks for: up to the comparison with the reference, no proof
  has been generated.
\<close>

definition compared_before_proof :: "'f event list \<Rightarrow> bool" where
  "compared_before_proof evs =
     list_all (\<lambda>ev. \<not> is_proof_generation ev) (takeWhile (\<lambda>ev. ev \<noteq> Validate_y_ref) evs)"

text \<open>
  The calls of the callback \<open>c\<close> in a list of events keep the pace of the squarings: \<open>m\<close>
  squarings are completed, at most \<open>T\<close>, the calls are those due up to \<open>m\<close>, and each was
  made when the count it reports had just been completed.
\<close>

definition paced ::
  "'f prims \<Rightarrow> callback \<Rightarrow> user_data \<Rightarrow> nat \<Rightarrow> nat \<Rightarrow> nat \<Rightarrow> 'f event list \<Rightarrow> bool" where
  "paced P c ud T p m evs =
     (m \<le> T \<and> completed P evs = m \<and>
      progress_calls evs = map (\<lambda>d. Progress_call c (word_of_nat d) ud) (due T p m) \<and>
      completed_at P 0 evs = due T p m)"

text \<open>The progress call iteration \<open>i\<close> makes, if it makes one (lines 128 to 133).\<close>

definition progress_events ::
  "uint64_t \<Rightarrow> uint64_t \<Rightarrow> ChiavdfProgressCallback \<Rightarrow> user_data \<Rightarrow> uint64_t \<Rightarrow> 'f event list" where
  "progress_events num_iterations progress_interval progress_cb progress_user_data i =
     (case progress_cb of
        None \<Rightarrow> []
      | Some cb \<Rightarrow>
          if progress_interval \<noteq> 0 \<and>
             (i + 1 = num_iterations \<or> (i + 1) mod progress_interval = 0)
          then [Progress_call cb (i + 1) progress_user_data]
          else [])"

text \<open>
  The outcome of the function for a way of leaving the \<^verbatim>\<open>try\<close> block, as
  \<open>prove_one_weso_slow\<close> above assigns it.
\<close>

fun outcome_of :: "stop + ChiavdfByteArray \<Rightarrow> outcome" where
  "outcome_of (Inl (Throw e)) = Returned (Exception_caught e) empty_result"
| "outcome_of (Inl (Return p r)) = Returned p r"
| "outcome_of (Inl Undefined) = Undefined_behaviour"
| "outcome_of (Inr r) = Returned Proof_done r"

text \<open>
  The two conditions under which the arithmetic of lines 104 and 115 stays in range: the
  product of the plan fits an \<^verbatim>\<open>int\<close>, and the rounding-up addition fits 64 bits.
\<close>

definition fits :: "'f prims \<Rightarrow> uint64_t \<Rightarrow> bool" where
  "fits P num_iterations =
     (sint (plan_k P num_iterations) * sint (plan_l P num_iterations) < 2 ^ 31 \<and>
      unat num_iterations + plan_kl P num_iterations - 1 < 2 ^ 64)"

text \<open>The byte array of an outcome, when there is one.\<close>

fun result :: "outcome \<Rightarrow> ChiavdfByteArray option" where
  "result (Returned p r) = Some r"
| "result Undefined_behaviour = None"

text \<open>
  What each part of the operation yields, the world left out: the parts are run from the
  initial state with no events, and the whole is put together from the values of the
  parts. The lemmas show that the state and the thread make no difference to what a part
  yields, so that \<open>run_value\<close> is what the operation returns.
\<close>

definition prepare_value ::
  "'f prims \<Rightarrow> uint8_t list \<Rightarrow> uint8_t list \<Rightarrow> uint64_t \<Rightarrow>
   stop + int \<times> int \<times> 'f \<times> 'f \<times> c_int" where
  "prepare_value P c xb bits = fst (prepare P c xb bits (initial_state, []))"

definition tune_value :: "'f prims \<Rightarrow> uint64_t \<Rightarrow> stop + c_int \<times> c_int \<times> c_int" where
  "tune_value P n = fst (tune P 0 n (initial_state, []))"

definition progress_value ::
  "'f prims \<Rightarrow> uint64_t \<Rightarrow> uint64_t \<Rightarrow> ChiavdfProgressCallback \<Rightarrow> user_data \<Rightarrow> uint64_t \<Rightarrow>
   stop + unit" where
  "progress_value P n pi cb ud i = fst (report_progress P n pi cb ud i (initial_state, []))"

definition squarings_value ::
  "'f prims \<Rightarrow> int \<Rightarrow> int \<Rightarrow> c_int \<Rightarrow> uint64_t \<Rightarrow> uint64_t \<Rightarrow> ChiavdfProgressCallback \<Rightarrow>
   user_data \<Rightarrow> 'f \<Rightarrow> stop + 'f \<times> 'f list" where
  "squarings_value P D L kl n pi cb ud y =
     fst (squarings P D L kl n pi cb ud y (initial_state, []))"

definition finish_value ::
  "'f prims \<Rightarrow> 'f \<Rightarrow> int \<Rightarrow> c_int \<Rightarrow> uint64_t \<Rightarrow> c_int \<Rightarrow> c_int \<Rightarrow> buffer \<Rightarrow> bool \<Rightarrow>
   'f \<Rightarrow> 'f list \<Rightarrow> stop + ChiavdfByteArray" where
  "finish_value P x D d n k l yr chk y ims =
     fst (finish P x D d n k l yr chk y ims (initial_state, []))"

definition try_value ::
  "'f prims \<Rightarrow> uint8_t list \<Rightarrow> uint8_t list \<Rightarrow> buffer \<Rightarrow> bool \<Rightarrow> uint64_t \<Rightarrow> uint64_t \<Rightarrow>
   uint64_t \<Rightarrow> ChiavdfProgressCallback \<Rightarrow> user_data \<Rightarrow> stop + ChiavdfByteArray" where
  "try_value P c xb yr chk bits n pi cb ud =
     (case prepare_value P c xb bits of
        Inl a \<Rightarrow> Inl a
      | Inr (D, L, x, y, d) \<Rightarrow>
          (case tune_value P n of
             Inl a \<Rightarrow> Inl a
           | Inr (k, l, kl) \<Rightarrow>
               (case squarings_value P D L kl n pi cb ud y of
                  Inl a \<Rightarrow> Inl a
                | Inr (yT, ims) \<Rightarrow> finish_value P x D d n k l yr chk yT ims)))"

definition run_value ::
  "'f prims \<Rightarrow> buffer \<Rightarrow> buffer \<Rightarrow> buffer \<Rightarrow> bool \<Rightarrow> uint64_t \<Rightarrow> uint64_t \<Rightarrow> uint64_t \<Rightarrow>
   ChiavdfProgressCallback \<Rightarrow> user_data \<Rightarrow> outcome" where
  "run_value P ch xs yr chk bits n pi cb ud =
     (case (ch, xs) of
        (Some c, Some xb) \<Rightarrow>
          if c = [] \<or> xb = [] then Returned Null_or_empty_input empty_result
          else if n = 0 \<or> bits = 0 then Returned Zero_iterations_or_size empty_result
          else outcome_of (try_value P c xb yr chk bits n pi cb ud)
      | _ \<Rightarrow> Returned Null_or_empty_input empty_result)"

section \<open>Lemmas\<close>

subsection \<open>Arithmetic\<close>

lemma unat_succ: "(i::uint64_t) < n \<Longrightarrow> unat (i + 1) = Suc (unat i)"
proof -
  assume lt: "i < n"
  then have lt': "unat i < unat n"
    by (simp add: word_less_nat_alt)
  have "unat n < 2 ^ 64"
    using unsigned_less [of n] by simp
  with lt' have "unat i + unat (1 :: uint64_t) < 2 ^ LENGTH(64)"
    by simp
  then have "unat (i + 1) = unat i + unat (1 :: uint64_t)"
    by (simp only: unat_add_lem [THEN iffD1])
  then show "unat (i + 1) = Suc (unat i)"
    by simp
qed

lemma ceil_div_multiple: "0 < k \<Longrightarrow> n mod k = 0 \<Longrightarrow> ceil_div n k = n div k"
proof -
  assume k: "0 < k" and m: "n mod k = 0"
  then obtain q where n: "n = k * q" by auto
  have b: "(k - 1) div k = 0" using k by simp
  have c: "k * q + k - 1 = k * q + (k - 1)" using k by simp
  have "(k * q + (k - 1)) div k = q + (k - 1) div k"
    by (rule div_mult_self4) (use k in simp)
  with b c have "(k * q + k - 1) div k = q" by simp
  then show ?thesis using k n by (simp add: ceil_div_def)
qed

lemma ceil_div_Suc:
  "0 < k \<Longrightarrow> ceil_div (Suc n) k = (if n mod k = 0 then Suc (ceil_div n k) else ceil_div n k)"
proof -
  assume k: "0 < k"
  have "(n + k) div k = Suc (n div k)"
    using k by (simp add: div_add_self2)
  then have a: "ceil_div (Suc n) k = Suc (n div k)"
    by (simp add: ceil_div_def)
  show ?thesis
  proof (cases "n mod k = 0")
    case True
    with k a show ?thesis by (simp add: ceil_div_multiple)
  next
    case False
    then obtain m where n: "n = Suc m" by (cases n) auto
    have "(m + k) div k = Suc (m div k)"
      using k by (simp add: div_add_self2)
    then have "ceil_div n k = Suc (m div k)"
      using n by (simp add: ceil_div_def)
    moreover have "n div k = m div k"
      using False n by (simp add: div_Suc)
    ultimately show ?thesis using a False by simp
  qed
qed

lemma ceil_div_0: "0 < k \<Longrightarrow> ceil_div 0 k = 0"
  by (simp add: ceil_div_def)

lemma ceil_div_mono: "n \<le> m \<Longrightarrow> ceil_div n k \<le> ceil_div m k"
  by (simp add: ceil_div_def div_le_mono)

lemma ceil_div_less: "0 < k \<Longrightarrow> n mod k = 0 \<Longrightarrow> n < m \<Longrightarrow> ceil_div n k < ceil_div m k"
proof -
  assume k: "0 < k" and m: "n mod k = 0" and lt: "n < m"
  have "Suc (ceil_div n k) = ceil_div (Suc n) k"
    using k m by (simp add: ceil_div_Suc)
  also have "\<dots> \<le> ceil_div m k"
    using lt by (intro ceil_div_mono) simp
  finally show ?thesis by simp
qed

lemma sint_mult_small:
  assumes "0 \<le> sint (k :: c_int) * sint l" and "sint k * sint l < 2 ^ 31"
  shows "sint (k * l) = sint k * sint l"
proof -
  have "sint (k * l) = signed_take_bit (LENGTH(32) - 1) (sint k * sint l)"
    by (rule sint_word_mult)
  also have "\<dots> = sint k * sint l"
    using assms by (intro signed_take_bit_int_eq_self) simp_all
  finally show ?thesis .
qed

lemma unat_scast_pos:
  assumes "0 \<le> sint (w :: c_int)"
  shows "unat (scast w :: uint64_t) = nat (sint w)"
proof -
  define x where "x = sint w"
  have "x < 2 ^ (LENGTH(32) - 1)"
    unfolding x_def by (rule sint_lt)
  then have x: "x < 2147483648"
    by simp
  have x0: "0 \<le> x"
    unfolding x_def by (rule assms)
  have "uint (word_of_int x :: uint64_t) = x mod 2 ^ LENGTH(64)"
    by (rule uint_word_of_int)
  also have "\<dots> = x"
    using x x0 by simp
  finally have "unat (word_of_int x :: uint64_t) = nat x"
    by (simp only: unat_eq_nat_uint)
  then show ?thesis
    by (simp only: scast_eq x_def)
qed

subsection \<open>Steps\<close>

lemma and_then_eq:
  "and_then m f w = (r, w') \<longleftrightarrow>
     (\<exists>a. m w = (Inl a, w') \<and> r = Inl a) \<or> (\<exists>x w1. m w = (Inr x, w1) \<and> f x w1 = (r, w'))"
  by (auto simp: and_then_def split: prod.splits sum.splits)

lemma call_eq:
  "call ev c w = (r, w') \<longleftrightarrow>
     w' = (fst w, snd w @ [ev]) \<and> r = (case c of Inl e \<Rightarrow> Inl (Throw e) | Inr x \<Rightarrow> Inr x)"
  by (auto simp: call_def)

lemma emit_eq: "emit ev w = (r, w') \<longleftrightarrow> w' = (fst w, snd w @ [ev]) \<and> r = Inr ()"
  by (auto simp: emit_def)

lemma ok_eq: "ok x w = (r, w') \<longleftrightarrow> w' = w \<and> r = Inr x"
  by (auto simp: ok_def)

lemma stop_with_eq: "stop_with a w = (r, w') \<longleftrightarrow> w' = w \<and> r = Inl a"
  by (auto simp: stop_with_def)

lemmas step_eqs = and_then_eq call_eq emit_eq ok_eq stop_with_eq

subsection \<open>The plan\<close>

lemma select_parameters_plan: "select_parameters P n = (plan_k P n, plan_l P n)"
  by (simp add: plan_k_def plan_l_def)

lemma plan_k_pos: "1 \<le> sint (plan_k P n)"
  by (simp add: plan_k_def select_parameters_def Let_def split: prod.splits)

lemma plan_l_pos: "1 \<le> sint (plan_l P n)"
  by (simp add: plan_l_def select_parameters_def Let_def split: prod.splits)

lemma plan_product_pos: "1 \<le> sint (plan_k P n) * sint (plan_l P n)"
proof -
  have "1 * 1 \<le> sint (plan_k P n) * sint (plan_l P n)"
    by (intro mult_mono plan_k_pos plan_l_pos) (use plan_k_pos [of P n] in simp_all)
  then show ?thesis by simp
qed

lemma plan_kl_pos: "0 < plan_kl P n"
  using plan_product_pos [of P n] by (simp add: plan_kl_def)

lemma plan_product_word:
  assumes "sint (plan_k P n) * sint (plan_l P n) < 2 ^ 31"
  shows "sint (plan_k P n * plan_l P n) = sint (plan_k P n) * sint (plan_l P n)"
  using assms plan_product_pos [of P n] by (intro sint_mult_small) simp_all

lemma tune_Inr:
  assumes "tune P t n w = (Inr (k, l, kl), w')"
  shows "k = plan_k P n \<and> l = plan_l P n \<and> kl = k * l \<and>
     sint (plan_k P n) * sint (plan_l P n) < 2 ^ 31 \<and>
     fst w' = (fst w)\<lparr>last_streaming_parameters := (last_streaming_parameters (fst w))
                  (t := \<lparr>last_k = k, last_l = l, last_tuned = False, last_set = True\<rparr>),
               last_streaming_stats := (last_streaming_stats (fst w)) (t := default_stats)\<rparr> \<and>
     snd w' = snd w @ [ApproximateParameters_call n]"
  using assms
  by (auto simp: tune_def step_eqs select_parameters_plan record_parameters_def Let_def
      split: if_splits)

lemma tune_Inl:
  assumes "tune P t n w = (Inl a, w')"
  shows "a = Undefined \<and> 2 ^ 31 \<le> sint (plan_k P n) * sint (plan_l P n) \<and>
     fst w' = fst w \<and> snd w' = snd w @ [ApproximateParameters_call n]"
proof -
  have "\<not> sint (plan_k P n * plan_l P n) \<le> 0" if "sint (plan_k P n) * sint (plan_l P n) < 2 ^ 31"
    using plan_product_word [OF that] plan_product_pos [of P n] by simp
  then show ?thesis
    using assms
    by (auto simp: tune_def step_eqs select_parameters_plan record_parameters_def Let_def
        split: if_splits)
qed


subsection \<open>Preparation\<close>

lemma prepare_Inr:
  assumes "prepare P c xb bits w = (Inr (D, L, x, y, d), w')"
  shows "CreateDiscriminant P c (ucast bits) = Inr D \<and> root P (- D) 4 = Inr L \<and>
     DeserializeForm P D xb = Inr x \<and> from_abd P (form_a P x) (form_b P x) D = Inr y \<and>
     d = num_bits P D \<and> fst w' = (fst w)\<lparr>init_once := True\<rparr> \<and>
     snd w' = snd w @ (if init_once (fst w) then [] else [Init_chiavdf_runtime]) @
       [CreateDiscriminant_call c (ucast bits), Root_call (- D), DeserializeForm_call D xb,
        From_abd_call (form_a P x) (form_b P x) D]"
  using assms
  by (auto simp: prepare_def step_eqs call_once_init_def split: sum.splits if_splits)

lemma prepare_Inl:
  assumes "prepare P c xb bits w = (Inl a, w')"
  shows "\<exists>e new. a = Throw e \<and> fst w' = (fst w)\<lparr>init_once := True\<rparr> \<and>
     snd w' = snd w @ new \<and> (\<forall>ev\<in>set new. stage ev = 0) \<and> new \<noteq> [] \<and>
     thrown_by P (last new) = Some e \<and> quiet P (butlast new)"
  using assms
  by (auto simp: prepare_def step_eqs call_once_init_def quiet_def thrown_def
      split: sum.splits if_splits)


subsection \<open>One iteration\<close>

lemma report_progress_Inr:
  assumes "report_progress P n pi cb ud i w = (Inr u, w')"
  shows "w' = (fst w, snd w @ progress_events n pi cb ud i) \<and>
     quiet P (progress_events n pi cb ud i)"
proof (cases cb)
  case None
  with assms show ?thesis
    by (cases w) (simp add: report_progress_def progress_events_def ok_def quiet_def)
next
  case (Some c)
  show ?thesis
  proof (cases "pi \<noteq> 0 \<and> (i + 1 = n \<or> (i + 1) mod pi = 0)")
    case True
    with Some assms show ?thesis
      by (cases w)
        (auto simp: report_progress_def progress_events_def call_def quiet_def thrown_def
          Let_def split: sum.splits)
  next
    case False
    with Some assms show ?thesis
      by (cases w)
        (auto simp: report_progress_def progress_events_def ok_def quiet_def Let_def
          split: if_splits)
  qed
qed

lemma report_progress_Inl:
  assumes "report_progress P n pi cb ud i w = (Inl a, w')"
  shows "\<exists>c e. a = Throw e \<and> cb = Some c \<and> pi \<noteq> 0 \<and> invoke P c (i + 1) ud = Inl e \<and>
     progress_events n pi cb ud i = [Progress_call c (i + 1) ud] \<and>
     w' = (fst w, snd w @ [Progress_call c (i + 1) ud])"
proof (cases cb)
  case None
  with assms show ?thesis
    by (simp add: report_progress_def ok_def)
next
  case (Some c)
  show ?thesis
  proof (cases "pi \<noteq> 0 \<and> (i + 1 = n \<or> (i + 1) mod pi = 0)")
    case True
    with Some assms show ?thesis
      by (cases w)
        (auto simp: report_progress_def progress_events_def call_def Let_def
          split: sum.splits)
  next
    case False
    with Some assms show ?thesis
      by (auto simp: report_progress_def ok_def Let_def split: if_splits)
  qed
qed

lemma store_checkpoint_eq:
  "store_checkpoint kl i y ims cur w = (r, w') \<longleftrightarrow>
     w' = w \<and>
     r = (if i mod kl = 0
          then (if cur < length ims then Inr (ims[cur := y], Suc cur) else Inl Undefined)
          else Inr (ims, cur))"
  by (auto simp: store_checkpoint_def ok_def stop_with_def)

lemma squaring_iteration_Inr:
  assumes "squaring_iteration P D L kl n pi cb ud i y ims cur w = (Inr (y', ims', cur'), w1)"
  shows "\<exists>y1. nudupl_form P y D L = Inr y1 \<and> reduce P y1 = Inr y' \<and>
     (if i mod kl = 0 then cur < length ims \<and> ims' = ims[cur := y] \<and> cur' = Suc cur
      else ims' = ims \<and> cur' = cur) \<and>
     fst w1 = fst w \<and>
     snd w1 = snd w @ [Nudupl_form_call y D L, Reduce_call y1] @ progress_events n pi cb ud i \<and>
     quiet P (progress_events n pi cb ud i)"
  using assms
  by (auto simp: squaring_iteration_def store_checkpoint_eq and_then_eq call_eq ok_eq
      split: sum.splits if_splits dest!: report_progress_Inr)

lemma squaring_iteration_Inl:
  assumes "squaring_iteration P D L kl n pi cb ud i y ims cur w = (Inl a, w1)"
  shows "fst w1 = fst w \<and>
     ((a = Undefined \<and> i mod kl = 0 \<and> \<not> cur < length ims \<and> snd w1 = snd w) \<or>
      (\<exists>e. a = Throw e \<and> nudupl_form P y D L = Inl e \<and>
           snd w1 = snd w @ [Nudupl_form_call y D L]) \<or>
      (\<exists>e y1. a = Throw e \<and> nudupl_form P y D L = Inr y1 \<and> reduce P y1 = Inl e \<and>
           snd w1 = snd w @ [Nudupl_form_call y D L, Reduce_call y1]) \<or>
      (\<exists>e y1 y2 c. a = Throw e \<and> nudupl_form P y D L = Inr y1 \<and> reduce P y1 = Inr y2 \<and>
           cb = Some c \<and> pi \<noteq> 0 \<and> invoke P c (i + 1) ud = Inl e \<and>
           progress_events n pi cb ud i = [Progress_call c (i + 1) ud] \<and>
           snd w1 = snd w @ [Nudupl_form_call y D L, Reduce_call y1,
             Progress_call c (i + 1) ud]))"
  using assms
  by (auto simp: squaring_iteration_def store_checkpoint_eq and_then_eq call_eq ok_eq
      split: sum.splits if_splits dest!: report_progress_Inl)

lemma stage_progress_events: "ev \<in> set (progress_events n pi cb ud i) \<Longrightarrow> stage ev = 2"
  by (auto simp: progress_events_def split: option.splits if_splits)

lemma quiet_append: "quiet P (xs @ ys) \<longleftrightarrow> quiet P xs \<and> quiet P ys"
  by (auto simp: quiet_def)

lemma quiet_Nil: "quiet P []"
  by (simp add: quiet_def)

lemma quiet_Cons: "quiet P (ev # evs) \<longleftrightarrow> thrown_by P ev = None \<and> quiet P evs"
  by (simp add: quiet_def)

subsection \<open>The loop\<close>

lemma squaring_loop_Inr_rule:
  assumes run: "squaring_loop P D L kl n pi cb ud i y ims cur w = (Inr (yT, imsT), w')"
    and inv: "I i y ims cur w"
    and step: "\<And>i y ims cur w y' ims' cur' w1.
      i < n \<Longrightarrow> I i y ims cur w \<Longrightarrow>
      squaring_iteration P D L kl n pi cb ud i y ims cur w = (Inr (y', ims', cur'), w1) \<Longrightarrow>
      I (i + 1) y' ims' cur' w1"
  shows "\<exists>iT curT. \<not> iT < n \<and> I iT yT imsT curT w'"
  using run inv
proof (induction "unat n - unat i" arbitrary: i y ims cur w rule: less_induct)
  case less
  show ?case
  proof (cases "i < n")
    case False
    with less.prems show ?thesis
      by (auto simp: squaring_loop.simps [of _ _ _ _ _ _ _ _ i])
  next
    case True
    obtain r w1 where it: "squaring_iteration P D L kl n pi cb ud i y ims cur w = (r, w1)"
      by (cases "squaring_iteration P D L kl n pi cb ud i y ims cur w") 
    with True less.prems(1) obtain y' ims' cur' where r: "r = Inr (y', ims', cur')"
      and rest: "squaring_loop P D L kl n pi cb ud (i + 1) y' ims' cur' w1 = (Inr (yT, imsT), w')"
      by (cases r) (auto simp: squaring_loop.simps [of _ _ _ _ _ _ _ _ i])
    from True have "unat n - unat (i + 1) < unat n - unat i"
      by (simp add: unat_succ word_less_nat_alt)
    moreover have "I (i + 1) y' ims' cur' w1"
      using step [OF True less.prems(2)] it r by simp
    ultimately show ?thesis
      using less.hyps rest by blast
  qed
qed

lemma squaring_loop_Inl_rule:
  assumes run: "squaring_loop P D L kl n pi cb ud i y ims cur w = (Inl a, w')"
    and inv: "I i y ims cur w"
    and step: "\<And>i y ims cur w y' ims' cur' w1.
      i < n \<Longrightarrow> I i y ims cur w \<Longrightarrow>
      squaring_iteration P D L kl n pi cb ud i y ims cur w = (Inr (y', ims', cur'), w1) \<Longrightarrow>
      I (i + 1) y' ims' cur' w1"
  shows "\<exists>j y ims cur w. j < n \<and> I j y ims cur w \<and>
           squaring_iteration P D L kl n pi cb ud j y ims cur w = (Inl a, w')"
  using run inv
proof (induction "unat n - unat i" arbitrary: i y ims cur w rule: less_induct)
  case less
  show ?case
  proof (cases "i < n")
    case False
    with less.prems show ?thesis
      by (auto simp: squaring_loop.simps [of _ _ _ _ _ _ _ _ i])
  next
    case True
    obtain r w1 where it: "squaring_iteration P D L kl n pi cb ud i y ims cur w = (r, w1)"
      by (cases "squaring_iteration P D L kl n pi cb ud i y ims cur w") 
    show ?thesis
    proof (cases r)
      case (Inl b)
      with True it less.prems(1) have "b = a" "w1 = w'"
        by (auto simp: squaring_loop.simps [of _ _ _ _ _ _ _ _ i])
      with True it Inl less.prems(2) show ?thesis by blast
    next
      case (Inr v)
      obtain y' ims' cur' where v: "v = (y', ims', cur')" by (cases v)
      with True it Inr less.prems(1)
      have rest: "squaring_loop P D L kl n pi cb ud (i + 1) y' ims' cur' w1 = (Inl a, w')"
        by (auto simp: squaring_loop.simps [of _ _ _ _ _ _ _ _ i])
      from True have "unat n - unat (i + 1) < unat n - unat i"
        by (simp add: unat_succ word_less_nat_alt)
      moreover have "I (i + 1) y' ims' cur' w1"
        using step [OF True less.prems(2)] it Inr v by simp
      ultimately show ?thesis
        using less.hyps rest by blast
    qed
  qed
qed

lemma loop_extends_refl: "loop_extends w w"
  by (simp add: loop_extends_def)

lemma loop_extends_iteration:
  assumes "loop_extends w0 w"
    and "squaring_iteration P D L kl n pi cb ud i y ims cur w = (r, w1)"
  shows "loop_extends w0 w1"
proof (cases r)
  case (Inl a)
  with assms(2) have "fst w1 = fst w \<and> (\<exists>new. snd w1 = snd w @ new \<and> (\<forall>ev\<in>set new. stage ev = 2))"
    by (auto dest!: squaring_iteration_Inl)
  with assms(1) show ?thesis
    by (auto simp: loop_extends_def)
next
  case (Inr v)
  obtain y' ims' cur' where "v = (y', ims', cur')" by (cases v)
  with Inr assms(2) have "fst w1 = fst w \<and> (\<exists>new. snd w1 = snd w @ new \<and> (\<forall>ev\<in>set new. stage ev = 2))"
    by (auto dest!: squaring_iteration_Inr simp: stage_progress_events)
  with assms(1) show ?thesis
    by (auto simp: loop_extends_def)
qed

lemma squaring_loop_extends:
  assumes run: "squaring_loop P D L kl n pi cb ud i y ims cur w = (r, w')"
  shows "loop_extends w w'"
proof -
  have step: "loop_extends w w1"
    if "i < n" and "loop_extends w w0"
      and "squaring_iteration P D L kl n pi cb ud i y ims cur w0 = (Inr (y', ims', cur'), w1)"
    for i y ims cur w0 y' ims' cur' w1
    using that(2,3) by (rule loop_extends_iteration)
  show ?thesis
  proof (cases r)
    case (Inl a)
    with run have "squaring_loop P D L kl n pi cb ud i y ims cur w = (Inl a, w')"
      by simp
    then have "\<exists>j y ims cur w0. j < n \<and> loop_extends w w0 \<and>
        squaring_iteration P D L kl n pi cb ud j y ims cur w0 = (Inl a, w')"
      by (rule squaring_loop_Inl_rule [where I = "\<lambda>i y ims cur w1. loop_extends w w1"])
        (rule loop_extends_refl, rule step, assumption+)
    then show ?thesis
      by (auto intro: loop_extends_iteration)
  next
    case (Inr v)
    obtain yT imsT where "v = (yT, imsT)" by (cases v)
    with Inr run have "squaring_loop P D L kl n pi cb ud i y ims cur w = (Inr (yT, imsT), w')"
      by simp
    then have "\<exists>iT (curT :: nat). \<not> iT < n \<and> loop_extends w w'"
      by (rule squaring_loop_Inr_rule [where I = "\<lambda>i y ims cur w1. loop_extends w w1"])
        (rule loop_extends_refl, rule step, assumption+)
    then show ?thesis
      by auto
  qed
qed

lemma squaring_loop_abort:
  assumes "squaring_loop P D L kl n pi cb ud i y ims cur w = (Inl a, w')"
  shows "a = Undefined \<or> (\<exists>e. a = Throw e)"
  using squaring_loop_Inl_rule [where I = "\<lambda>i y ims cur w1. True", OF assms]
  by (auto dest!: squaring_iteration_Inl)

text \<open>Exceptions in the loop.\<close>

lemma squaring_loop_exn_shape:
  assumes run: "squaring_loop P D L kl n pi cb ud i y ims cur w = (r, w')"
    and q: "quiet P (snd w)"
  shows "exn_shape P r (snd w')"
proof -
  have step: "quiet P (snd w1)"
    if "i < n" and "quiet P (snd w0)"
      and "squaring_iteration P D L kl n pi cb ud i y ims cur w0 = (Inr (y', ims', cur'), w1)"
    for i y ims cur w0 y' ims' cur' w1
    using that(2,3)
    by (auto dest!: squaring_iteration_Inr simp: quiet_append quiet_Cons thrown_def)
  show ?thesis
  proof (cases r)
    case (Inl a)
    with run have "squaring_loop P D L kl n pi cb ud i y ims cur w = (Inl a, w')"
      by simp
    then have "\<exists>j y ims cur w0. j < n \<and> quiet P (snd w0) \<and>
        squaring_iteration P D L kl n pi cb ud j y ims cur w0 = (Inl a, w')"
      by (rule squaring_loop_Inl_rule [where I = "\<lambda>i y ims cur w1. quiet P (snd w1)"])
        (rule q, rule step, assumption+)
    then obtain j y ims cur w0 where "quiet P (snd w0)"
      and "squaring_iteration P D L kl n pi cb ud j y ims cur w0 = (Inl a, w')"
      by blast
    then show ?thesis
      using Inl
      by (auto dest!: squaring_iteration_Inl
          simp: exn_shape_def quiet_append quiet_Cons quiet_Nil butlast_append thrown_def)
  next
    case (Inr v)
    obtain yT imsT where "v = (yT, imsT)" by (cases v)
    with Inr run have "squaring_loop P D L kl n pi cb ud i y ims cur w = (Inr (yT, imsT), w')"
      by simp
    then have "\<exists>iT (curT :: nat). \<not> iT < n \<and> quiet P (snd w')"
      by (rule squaring_loop_Inr_rule [where I = "\<lambda>i y ims cur w1. quiet P (snd w1)"])
        (rule q, rule step, assumption+)
    then show ?thesis
      using Inr by (auto simp: exn_shape_def)
  qed
qed

lemma word_mod_eq_0: "(i :: uint64_t) mod kl = 0 \<longleftrightarrow> unat i mod unat kl = 0"
proof -
  have "unat (i mod kl) = unat i mod unat kl"
    by (rule unat_mod_distrib)
  moreover have "i mod kl = 0 \<longleftrightarrow> unat (i mod kl) = 0"
    by (simp add: unat_eq_0)
  ultimately show ?thesis by simp
qed

lemma word_not_less_eq: "\<not> (i :: uint64_t) < n \<Longrightarrow> unat i \<le> unat n \<Longrightarrow> i = n"
  by (simp add: word_less_nat_alt word_unat_eq_iff)

lemma checkpoints_inv_init: "0 < K \<Longrightarrow> checkpoints_inv P D L K T N y0 0 y0 (replicate N d) 0"
  by (simp add: checkpoints_inv_def ceil_div_0)

lemma checkpoints_inv_step:
  assumes lt: "i < n" and K: "unat kl \<noteq> 0"
    and inv: "checkpoints_inv P D L (unat kl) (unat n) N y0 i y ims cur"
    and it: "squaring_iteration P D L kl n pi cb ud i y ims cur w = (Inr (y', ims', cur'), w1)"
  shows "checkpoints_inv P D L (unat kl) (unat n) N y0 (i + 1) y' ims' cur'"
proof -
  from it obtain y1 where sq: "nudupl_form P y D L = Inr y1" "reduce P y1 = Inr y'"
    and st: "if i mod kl = 0 then cur < length ims \<and> ims' = ims[cur := y] \<and> cur' = Suc cur
             else ims' = ims \<and> cur' = cur"
    by (auto dest!: squaring_iteration_Inr)
  have suc: "unat (i + 1) = Suc (unat i)"
    using lt by (rule unat_succ)
  have le: "unat (i + 1) \<le> unat n"
    using lt suc by (simp add: word_less_nat_alt)
  from inv have y: "square_n P D L (unat i) y0 = Inr y"
    and cur: "cur = ceil_div (unat i) (unat kl)" and len: "length ims = N"
    and old: "\<forall>j<cur. square_n P D L (j * unat kl) y0 = Inr (ims ! j)"
    and cl: "cur \<le> length ims"
    by (simp_all add: checkpoints_inv_def)
  have y': "square_n P D L (unat (i + 1)) y0 = Inr y'"
    using y sq by (simp add: suc square_reduce_def)
  show ?thesis
  proof (cases "i mod kl = 0")
    case True
    then have m: "unat i mod unat kl = 0"
      by (simp add: word_mod_eq_0)
    from True st have w: "cur < length ims" "ims' = ims[cur := y]" "cur' = Suc cur"
      by simp_all
    have "cur = unat i div unat kl"
      using cur m K by (simp add: ceil_div_multiple)
    then have ck: "cur * unat kl = unat i"
      using m by (simp add: mod_eq_0_iff_dvd)
    have c': "cur' = ceil_div (unat (i + 1)) (unat kl)"
      using w cur m K by (simp add: suc ceil_div_Suc)
    have "square_n P D L (j * unat kl) y0 = Inr (ims' ! j)" if "j < cur'" for j
    proof (cases "j = cur")
      case True
      with w y ck show ?thesis by simp
    next
      case False
      with that w have "j < cur" by simp
      with old w show ?thesis by simp
    qed
    with le y' c' w len show ?thesis
      by (simp add: checkpoints_inv_def)
  next
    case False
    then have m: "unat i mod unat kl \<noteq> 0"
      by (simp add: word_mod_eq_0)
    from False st have w: "ims' = ims" "cur' = cur"
      by simp_all
    have c': "cur' = ceil_div (unat (i + 1)) (unat kl)"
      using w cur m K by (simp add: suc ceil_div_Suc)
    with le y' w len old cl show ?thesis
      by (simp add: checkpoints_inv_def)
  qed
qed

lemma squaring_loop_checkpoints:
  assumes run: "squaring_loop P D L kl n pi cb ud 0 y0 (replicate N d) 0 w = (Inr (yT, imsT), w')"
    and K: "unat kl \<noteq> 0"
  shows "square_n P D L (unat n) y0 = Inr yT \<and> length imsT = N \<and>
     ceil_div (unat n) (unat kl) \<le> N \<and>
     (\<forall>j<ceil_div (unat n) (unat kl). square_n P D L (j * unat kl) y0 = Inr (imsT ! j))"
proof -
  have step: "checkpoints_inv P D L (unat kl) (unat n) N y0 (i + 1) y' ims' cur'"
    if "i < n" and "checkpoints_inv P D L (unat kl) (unat n) N y0 i y ims cur"
      and "squaring_iteration P D L kl n pi cb ud i y ims cur w0 = (Inr (y', ims', cur'), w1)"
    for i y ims cur w0 y' ims' cur' w1
    using that(1) K that(2,3) by (rule checkpoints_inv_step)
  have init: "checkpoints_inv P D L (unat kl) (unat n) N y0 0 y0 (replicate N d) 0"
    using K by (intro checkpoints_inv_init) simp
  from run have "\<exists>iT curT. \<not> iT < n \<and> checkpoints_inv P D L (unat kl) (unat n) N y0 iT yT imsT curT"
    by (rule squaring_loop_Inr_rule
        [where I = "\<lambda>i y ims cur w1. checkpoints_inv P D L (unat kl) (unat n) N y0 i y ims cur"])
      (rule init, rule step, assumption+)
  then obtain iT curT where nl: "\<not> iT < n"
    and inv: "checkpoints_inv P D L (unat kl) (unat n) N y0 iT yT imsT curT"
    by blast
  from inv have "unat iT \<le> unat n"
    by (simp add: checkpoints_inv_def)
  with nl have "iT = n"
    by (rule word_not_less_eq)
  with inv show ?thesis
    by (auto simp: checkpoints_inv_def)
qed

lemma squaring_loop_defined:
  assumes run: "squaring_loop P D L kl n pi cb ud 0 y0 (replicate N d) 0 w = (Inl a, w')"
    and K: "unat kl \<noteq> 0" and N: "ceil_div (unat n) (unat kl) \<le> N"
  shows "\<exists>e. a = Throw e"
proof -
  have step: "checkpoints_inv P D L (unat kl) (unat n) N y0 (i + 1) y' ims' cur'"
    if "i < n" and "checkpoints_inv P D L (unat kl) (unat n) N y0 i y ims cur"
      and "squaring_iteration P D L kl n pi cb ud i y ims cur w0 = (Inr (y', ims', cur'), w1)"
    for i y ims cur w0 y' ims' cur' w1
    using that(1) K that(2,3) by (rule checkpoints_inv_step)
  have init: "checkpoints_inv P D L (unat kl) (unat n) N y0 0 y0 (replicate N d) 0"
    using K by (intro checkpoints_inv_init) simp
  from run have "\<exists>j y ims cur w0. j < n \<and>
      checkpoints_inv P D L (unat kl) (unat n) N y0 j y ims cur \<and>
      squaring_iteration P D L kl n pi cb ud j y ims cur w0 = (Inl a, w')"
    by (rule squaring_loop_Inl_rule
        [where I = "\<lambda>i y ims cur w1. checkpoints_inv P D L (unat kl) (unat n) N y0 i y ims cur"])
      (rule init, rule step, assumption+)
  then obtain j y ims cur w0 where lt: "j < n"
    and inv: "checkpoints_inv P D L (unat kl) (unat n) N y0 j y ims cur"
    and it: "squaring_iteration P D L kl n pi cb ud j y ims cur w0 = (Inl a, w')"
    by blast
  have c: "cur < length ims" if "j mod kl = 0"
  proof -
    from that have "unat j mod unat kl = 0"
      by (simp add: word_mod_eq_0)
    moreover from lt have "unat j < unat n"
      by (simp add: word_less_nat_alt)
    ultimately have "ceil_div (unat j) (unat kl) < ceil_div (unat n) (unat kl)"
      using K by (intro ceil_div_less) simp_all
    with inv N show ?thesis
      by (simp add: checkpoints_inv_def)
  qed
  from squaring_iteration_Inl [OF it]
  have "(a = Undefined \<and> j mod kl = 0 \<and> \<not> cur < length ims) \<or> (\<exists>e. a = Throw e)"
    by blast
  with c show ?thesis
    by blast
qed

text \<open>The size of the vector, line 115.\<close>

lemma size_vec_le:
  assumes "unat (c :: uint64_t) \<noteq> 0"
  shows "unat ((n + c - 1) div c) \<le> ceil_div (unat n) (unat c)"
proof -
  have "n + c - 1 = word_of_nat (unat n + unat c - 1)"
    using assms by (simp add: of_nat_diff)
  then have "unat (n + c - 1) = (unat n + unat c - 1) mod 2 ^ LENGTH(64)"
    by (simp only: unat_of_nat)
  also have "\<dots> \<le> unat n + unat c - 1"
    by (rule mod_less_eq_dividend)
  finally have "unat (n + c - 1) div unat c \<le> (unat n + unat c - 1) div unat c"
    by (rule div_le_mono)
  then show ?thesis
    by (simp add: unat_div_distrib ceil_div_def)
qed

lemma size_vec_eq:
  assumes "unat (c :: uint64_t) \<noteq> 0" and "unat n + unat c - 1 < 2 ^ 64"
  shows "unat ((n + c - 1) div c) = ceil_div (unat n) (unat c)"
proof -
  have "n + c - 1 = word_of_nat (unat n + unat c - 1)"
    using assms(1) by (simp add: of_nat_diff)
  then have "unat (n + c - 1) = (unat n + unat c - 1) mod 2 ^ LENGTH(64)"
    by (simp only: unat_of_nat)
  also have "\<dots> = unat n + unat c - 1"
    using assms(2) by simp
  finally show ?thesis
    by (simp add: unat_div_distrib ceil_div_def)
qed

subsection \<open>The last part\<close>

lemma reference_exit_None: "reference_exit yr ys = None \<longleftrightarrow> (\<exists>y_ref. yr = Some y_ref \<and> y_ref \<noteq> [] \<and> ys = y_ref)"
  by (auto simp: reference_exit_def split: option.splits)

lemma validate_y_ref_eq:
  "validate_y_ref yr ys w = (r, w') \<longleftrightarrow>
     w' = (fst w, snd w @ [Validate_y_ref]) \<and>
     r = (case reference_exit yr ys of
            Some p \<Rightarrow> Inl (Return p empty_result)
          | None \<Rightarrow> Inr ())"
proof (cases yr)
  case None
  then show ?thesis
    by (auto simp: validate_y_ref_def reference_exit_def and_then_eq emit_eq stop_with_eq)
next
  case (Some y_ref)
  have "ys \<noteq> take (length ys) y_ref \<longleftrightarrow> ys \<noteq> y_ref" if "length ys = length y_ref"
    using that by simp
  with Some show ?thesis
    by (auto simp: validate_y_ref_def reference_exit_def and_then_eq emit_eq stop_with_eq ok_eq)
qed

lemma conclude_cases [consumes 1, case_names encoding_fault not_checked mismatch agreed]:
  assumes "conclude yr chk ys ps w = (r, w')"
  obtains
    (encoding_fault) "ys = [] \<or> ps = []" "r = Inl (Return Encoding_fault empty_result)" "w' = w"
  | (not_checked) "ys \<noteq> []" "ps \<noteq> []" "\<not> chk"
      "r = Inr \<lparr>data = Some (ys @ ps), length' = length ys + length ps\<rparr>" "w' = w"
  | (mismatch) p where "ys \<noteq> []" "ps \<noteq> []" "chk" "reference_exit yr ys = Some p"
      "r = Inl (Return p empty_result)" "w' = (fst w, snd w @ [Validate_y_ref])"
  | (agreed) "ys \<noteq> []" "ps \<noteq> []" "chk" "yr = Some ys"
      "r = Inr \<lparr>data = Some (ys @ ps), length' = length ys + length ps\<rparr>"
      "w' = (fst w, snd w @ [Validate_y_ref])"
proof (cases "ys = [] \<or> ps = []")
  case True
  with assms show thesis
    by (intro encoding_fault) (auto simp: conclude_def stop_with_eq)
next
  case ne: False
  show thesis
  proof (cases chk)
    case False
    with ne assms show thesis
      by (intro not_checked) (auto simp: conclude_def and_then_eq ok_eq)
  next
    case True
    show thesis
    proof (cases "reference_exit yr ys")
      case None
      then have "yr = Some ys"
        by (auto simp: reference_exit_None)
      with ne True None assms show thesis
        by (intro agreed) (auto simp: conclude_def and_then_eq ok_eq validate_y_ref_eq)
    next
      case (Some p)
      with ne True assms show thesis
        by (intro mismatch [of p]) (auto simp: conclude_def and_then_eq ok_eq validate_y_ref_eq)
    qed
  qed
qed

lemma finish_cases [consumes 1, case_names proof_throws y_throws wproof_throws serialized]:
  assumes "finish P x D d n k l yr chk y ims w = (r, w')"
  obtains
    (proof_throws) e where "GenerateWesolowski P y x D ims n (scast k) (scast l) = Inl e"
      "r = Inl (Throw e)"
      "w' = (fst w, snd w @ [GenerateWesolowski_call y x D ims n (scast k) (scast l)])"
  | (y_throws) wproof e where "GenerateWesolowski P y x D ims n (scast k) (scast l) = Inr wproof"
      "SerializeForm P y d = Inl e" "r = Inl (Throw e)"
      "w' = (fst w, snd w @ [GenerateWesolowski_call y x D ims n (scast k) (scast l),
         SerializeForm_call y d])"
  | (wproof_throws) wproof ys e where
      "GenerateWesolowski P y x D ims n (scast k) (scast l) = Inr wproof"
      "SerializeForm P y d = Inr ys" "SerializeForm P wproof d = Inl e" "r = Inl (Throw e)"
      "w' = (fst w, snd w @ [GenerateWesolowski_call y x D ims n (scast k) (scast l),
         SerializeForm_call y d, SerializeForm_call wproof d])"
  | (serialized) wproof ys ps where
      "GenerateWesolowski P y x D ims n (scast k) (scast l) = Inr wproof"
      "SerializeForm P y d = Inr ys" "SerializeForm P wproof d = Inr ps"
      "conclude yr chk ys ps
         (fst w, snd w @ [GenerateWesolowski_call y x D ims n (scast k) (scast l),
            SerializeForm_call y d, SerializeForm_call wproof d]) = (r, w')"
proof (cases "GenerateWesolowski P y x D ims n (scast k) (scast l)")
  case (Inl e)
  with assms show thesis
    by (intro proof_throws [of e]) (auto simp: finish_def and_then_eq call_eq)
next
  case gw: (Inr wproof)
  show thesis
  proof (cases "SerializeForm P y d")
    case (Inl e)
    with gw assms show thesis
      by (intro y_throws [of wproof e]) (auto simp: finish_def and_then_eq call_eq)
  next
    case sy: (Inr ys)
    show thesis
    proof (cases "SerializeForm P wproof d")
      case (Inl e)
      with gw sy assms show thesis
        by (intro wproof_throws [of wproof ys e]) (auto simp: finish_def and_then_eq call_eq)
    next
      case (Inr ps)
      with gw sy assms show thesis
        by (intro serialized [of wproof ys ps]) (auto simp: finish_def and_then_eq call_eq)
    qed
  qed
qed

subsection \<open>The squaring part\<close>

lemma squarings_extends:
  "squarings P D L kl n pi cb ud y w = (r, w') \<Longrightarrow> loop_extends w w'"
  by (auto simp: squarings_def Let_def dest: squaring_loop_extends)

lemma squarings_exn_shape:
  "squarings P D L kl n pi cb ud y w = (r, w') \<Longrightarrow> quiet P (snd w) \<Longrightarrow> exn_shape P r (snd w')"
  by (auto simp: squarings_def Let_def dest: squaring_loop_exn_shape)

lemma squarings_abort:
  "squarings P D L kl n pi cb ud y w = (Inl a, w') \<Longrightarrow> a = Undefined \<or> (\<exists>e. a = Throw e)"
  by (auto simp: squarings_def Let_def dest: squaring_loop_abort)

lemma squarings_checkpoints:
  assumes run: "squarings P D L kl n pi cb ud y0 w = (Inr (yT, imsT), w')"
    and kl: "0 < sint kl"
  shows "square_n P D L (unat n) y0 = Inr yT \<and>
     length imsT = ceil_div (unat n) (nat (sint kl)) \<and>
     (\<forall>j<length imsT. square_n P D L (j * nat (sint kl)) y0 = Inr (imsT ! j))"
proof -
  have K: "unat (scast kl :: uint64_t) = nat (sint kl)"
    using kl by (intro unat_scast_pos) simp
  with kl have K0: "unat (scast kl :: uint64_t) \<noteq> 0"
    by simp
  let ?N = "unat ((n + scast kl - 1) div scast kl)"
  from run have "squaring_loop P D L (scast kl) n pi cb ud 0 y0
      (replicate ?N (form_default P)) 0 w = (Inr (yT, imsT), w')"
    by (simp add: squarings_def Let_def)
  from squaring_loop_checkpoints [OF this K0]
  have a: "square_n P D L (unat n) y0 = Inr yT" and b: "length imsT = ?N"
    and c: "ceil_div (unat n) (unat (scast kl :: uint64_t)) \<le> ?N"
    and d: "\<forall>j<ceil_div (unat n) (unat (scast kl :: uint64_t)).
        square_n P D L (j * unat (scast kl :: uint64_t)) y0 = Inr (imsT ! j)"
    by blast+
  from c size_vec_le [OF K0, of n] have "?N = ceil_div (unat n) (unat (scast kl :: uint64_t))"
    by simp
  with a b d show ?thesis
    by (simp add: K)
qed

lemma squarings_defined:
  assumes run: "squarings P D L kl n pi cb ud y0 w = (Inl a, w')"
    and kl: "0 < sint kl" and fit: "unat n + nat (sint kl) - 1 < 2 ^ 64"
  shows "\<exists>e. a = Throw e"
proof -
  have K: "unat (scast kl :: uint64_t) = nat (sint kl)"
    using kl by (intro unat_scast_pos) simp
  with kl have K0: "unat (scast kl :: uint64_t) \<noteq> 0"
    by simp
  let ?N = "unat ((n + scast kl - 1) div scast kl)"
  from run have loop: "squaring_loop P D L (scast kl) n pi cb ud 0 y0
      (replicate ?N (form_default P)) 0 w = (Inl a, w')"
    by (simp add: squarings_def Let_def)
  have "?N = ceil_div (unat n) (unat (scast kl :: uint64_t))"
    using K0 fit by (intro size_vec_eq) (simp_all add: K)
  then have "ceil_div (unat n) (unat (scast kl :: uint64_t)) \<le> ?N"
    by simp
  with loop K0 show ?thesis
    by (rule squaring_loop_defined)
qed


subsection \<open>Consequences for the last part\<close>

lemma reference_exit_Some:
  "reference_exit yr ys = Some p \<Longrightarrow>
     p = Reference_missing \<or> p = Reference_length_mismatch \<or> p = Reference_content_mismatch"
  by (auto simp: reference_exit_def split: option.splits if_splits)

lemma reference_exit_missing: "yr = None \<or> yr = Some [] \<Longrightarrow> reference_exit yr ys = Some Reference_missing"
  by (auto simp: reference_exit_def)

lemma conclude_world:
  assumes "conclude yr chk ys ps w = (r, w')"
  shows "fst w' = fst w \<and> (snd w' = snd w \<or> chk \<and> snd w' = snd w @ [Validate_y_ref])"
  using assms by (cases rule: conclude_cases) simp_all

lemma conclude_Inl:
  assumes "conclude yr chk ys ps w = (Inl a, w')"
  shows "\<exists>p. a = Return p empty_result \<and>
     (p = Encoding_fault \<or>
      chk \<and> (p = Reference_missing \<or> p = Reference_length_mismatch \<or>
        p = Reference_content_mismatch))"
  using assms by (cases rule: conclude_cases) (auto dest: reference_exit_Some)

lemma finish_Inr:
  assumes "finish P x D d n k l yr chk y ims w = (Inr r, w')"
  shows "\<exists>wproof ys ps. GenerateWesolowski P y x D ims n (scast k) (scast l) = Inr wproof \<and>
     SerializeForm P y d = Inr ys \<and> SerializeForm P wproof d = Inr ps \<and> ys \<noteq> [] \<and> ps \<noteq> [] \<and>
     r = \<lparr>data = Some (ys @ ps), length' = length ys + length ps\<rparr> \<and> (chk \<longrightarrow> yr = Some ys) \<and>
     fst w' = fst w \<and>
     snd w' = snd w @ [GenerateWesolowski_call y x D ims n (scast k) (scast l),
        SerializeForm_call y d, SerializeForm_call wproof d] @ (if chk then [Validate_y_ref] else [])"
  using assms
proof (cases rule: finish_cases)
  case (serialized wproof ys ps)
  from serialized(4) have "ys \<noteq> [] \<and> ps \<noteq> [] \<and>
     r = \<lparr>data = Some (ys @ ps), length' = length ys + length ps\<rparr> \<and> (chk \<longrightarrow> yr = Some ys) \<and>
     fst w' = fst w \<and>
     snd w' = snd w @ [GenerateWesolowski_call y x D ims n (scast k) (scast l),
        SerializeForm_call y d, SerializeForm_call wproof d] @ (if chk then [Validate_y_ref] else [])"
    by (cases rule: conclude_cases) simp_all
  with serialized(1-3) show ?thesis
    by blast
qed simp_all

lemma finish_Inl:
  assumes "finish P x D d n k l yr chk y ims w = (Inl a, w')"
  shows "(\<exists>e. a = Throw e) \<or>
     (\<exists>p. a = Return p empty_result \<and>
       (p = Encoding_fault \<or>
        chk \<and> (p = Reference_missing \<or> p = Reference_length_mismatch \<or>
          p = Reference_content_mismatch)))"
  using assms
proof (cases rule: finish_cases)
  case (serialized wproof ys ps)
  from conclude_Inl [OF serialized(4)] show ?thesis
    by blast
qed simp_all

lemma finish_events:
  assumes "finish P x D d n k l yr chk y ims w = (r, w')"
  shows "fst w' = fst w \<and>
     (\<exists>new. snd w' = snd w @ GenerateWesolowski_call y x D ims n (scast k) (scast l) # new \<and>
        (\<forall>ev\<in>set new. 4 \<le> stage ev))"
  using assms
proof (cases rule: finish_cases)
  case (serialized wproof ys ps)
  from conclude_world [OF serialized(4)] show ?thesis
    by auto
qed simp_all

lemma finish_exn_shape:
  assumes "finish P x D d n k l yr chk y ims w = (r, w')" and q: "quiet P (snd w)"
  shows "exn_shape P r (snd w')"
  using assms(1)
proof (cases rule: finish_cases)
  case (proof_throws e)
  with q show ?thesis
    by (simp add: exn_shape_def thrown_def)
next
  case (y_throws wproof e)
  with q show ?thesis
    by (simp add: exn_shape_def thrown_def butlast_append quiet_append quiet_Cons quiet_Nil)
next
  case (wproof_throws wproof ys e)
  with q show ?thesis
    by (simp add: exn_shape_def thrown_def butlast_append quiet_append quiet_Cons quiet_Nil)
next
  case (serialized wproof ys ps)
  let ?w = "(fst w, snd w @ [GenerateWesolowski_call y x D ims n (scast k) (scast l),
            SerializeForm_call y d, SerializeForm_call wproof d])"
  from serialized(1-3) q have q': "quiet P (snd ?w)"
    by (simp add: thrown_def quiet_append quiet_Cons quiet_Nil)
  from serialized(4) have "(\<forall>e. r \<noteq> Inl (Throw e)) \<and> quiet P (snd w')"
  proof (cases rule: conclude_cases)
    case encoding_fault
    with q' show ?thesis by simp
  next
    case not_checked
    with q' show ?thesis by simp
  next
    case (mismatch p)
    with q' show ?thesis by (simp add: quiet_append quiet_Cons quiet_Nil)
  next
    case agreed
    with q' show ?thesis by (simp add: quiet_append quiet_Cons quiet_Nil)
  qed
  then show ?thesis
    by (auto simp: exn_shape_def split: sum.splits stop.splits)
qed

lemma finish_validated:
  assumes "finish P x D d n k l yr True y ims w = (r, w')"
    and v: "Validate_y_ref \<in> set (snd w')" and nv: "Validate_y_ref \<notin> set (snd w)"
  shows "\<exists>wproof ys ps. GenerateWesolowski P y x D ims n (scast k) (scast l) = Inr wproof \<and>
     SerializeForm P y d = Inr ys \<and> SerializeForm P wproof d = Inr ps \<and> ys \<noteq> [] \<and> ps \<noteq> [] \<and>
     snd w' = snd w @ [GenerateWesolowski_call y x D ims n (scast k) (scast l),
        SerializeForm_call y d, SerializeForm_call wproof d, Validate_y_ref] \<and>
     (if yr = Some ys
      then r = Inr \<lparr>data = Some (ys @ ps), length' = length ys + length ps\<rparr>
      else \<exists>p. r = Inl (Return p empty_result))"
  using assms(1)
proof (cases rule: finish_cases)
  case (proof_throws e)
  with v nv show ?thesis by simp
next
  case (y_throws wproof e)
  with v nv show ?thesis by simp
next
  case (wproof_throws wproof ys e)
  with v nv show ?thesis by simp
next
  case (serialized wproof ys ps)
  from serialized(4) have "ys \<noteq> [] \<and> ps \<noteq> [] \<and>
     snd w' = snd w @ [GenerateWesolowski_call y x D ims n (scast k) (scast l),
        SerializeForm_call y d, SerializeForm_call wproof d, Validate_y_ref] \<and>
     (if yr = Some ys
      then r = Inr \<lparr>data = Some (ys @ ps), length' = length ys + length ps\<rparr>
      else \<exists>p. r = Inl (Return p empty_result))"
  proof (cases rule: conclude_cases)
    case encoding_fault
    with v nv show ?thesis by simp
  next
    case not_checked
    then show ?thesis by simp
  next
    case (mismatch p)
    then have "yr \<noteq> Some ys"
      by (auto simp: reference_exit_def)
    with mismatch show ?thesis by simp
  next
    case agreed
    then show ?thesis by simp
  qed
  with serialized(1-3) show ?thesis
    by blast
qed

subsection \<open>The whole \<^verbatim>\<open>try\<close> block\<close>

lemma try_block_cases [consumes 1, case_names prepare tune squarings finish]:
  assumes "try_block P t c xb yr chk bits n pi cb ud w = (r, w')"
  obtains
    (prepare) a where "prepare P c xb bits w = (Inl a, w')" "r = Inl a"
  | (tune) D L x y d w1 a where "prepare P c xb bits w = (Inr (D, L, x, y, d), w1)"
      "tune P t n w1 = (Inl a, w')" "r = Inl a"
  | (squarings) D L x y d w1 k l kl w2 a where "prepare P c xb bits w = (Inr (D, L, x, y, d), w1)"
      "tune P t n w1 = (Inr (k, l, kl), w2)"
      "squarings P D L kl n pi cb ud y w2 = (Inl a, w')" "r = Inl a"
  | (finish) D L x y d w1 k l kl w2 yT ims w3 where
      "prepare P c xb bits w = (Inr (D, L, x, y, d), w1)"
      "tune P t n w1 = (Inr (k, l, kl), w2)"
      "squarings P D L kl n pi cb ud y w2 = (Inr (yT, ims), w3)"
      "finish P x D d n k l yr chk yT ims w3 = (r, w')"
proof -
  let ?f3 = "\<lambda>x D d k l. (\<lambda>(yT, ims). finish P x D d n k l yr chk yT ims)"
  let ?f2 = "\<lambda>D L x y d. (\<lambda>(k, l, kl).
    and_then (squarings P D L kl n pi cb ud y) (?f3 x D d k l))"
  let ?f1 = "\<lambda>(D, L, x, y, d). and_then (tune P t n) (?f2 D L x y d)"
  from assms have "and_then (prepare P c xb bits) ?f1 w = (r, w')"
    by (simp only: try_block_def)
  then consider (a) a where "prepare P c xb bits w = (Inl a, w')" "r = Inl a"
    | (b) v w1 where "prepare P c xb bits w = (Inr v, w1)" "?f1 v w1 = (r, w')"
    by (auto simp only: and_then_eq)
  then show thesis
  proof cases
    case a
    then show thesis by (rule prepare)
  next
    case b
    obtain D L x y d where v: "v = (D, L, x, y, d)"
      by (cases v)
    with b have p: "prepare P c xb bits w = (Inr (D, L, x, y, d), w1)"
      and "and_then (tune P t n) (?f2 D L x y d) w1 = (r, w')"
      by simp_all
    then consider (c) a where "tune P t n w1 = (Inl a, w')" "r = Inl a"
      | (d) u w2 where "tune P t n w1 = (Inr u, w2)" "?f2 D L x y d u w2 = (r, w')"
      by (auto simp only: and_then_eq)
    then show thesis
    proof cases
      case c
      with p show thesis by (rule tune)
    next
      case d
      obtain k l kl where u: "u = (k, l, kl)"
        by (cases u)
      with d have tu: "tune P t n w1 = (Inr (k, l, kl), w2)"
        and "and_then (squarings P D L kl n pi cb ud y) (?f3 x D d k l) w2 = (r, w')"
        by simp_all
      then consider (e) a where "squarings P D L kl n pi cb ud y w2 = (Inl a, w')" "r = Inl a"
        | (f) q w3 where "squarings P D L kl n pi cb ud y w2 = (Inr q, w3)"
            "?f3 x D d k l q w3 = (r, w')"
        by (auto simp only: and_then_eq)
      then show thesis
      proof cases
        case e
        with p tu show thesis by (rule squarings)
      next
        case f
        obtain yT ims where "q = (yT, ims)"
          by (cases q)
        with f have "squarings P D L kl n pi cb ud y w2 = (Inr (yT, ims), w3)"
          and "finish P x D d n k l yr chk yT ims w3 = (r, w')"
          by simp_all
        with p tu show thesis by (rule finish)
      qed
    qed
  qed
qed

lemmas run_defs =
  prove_one_weso_slow_def try_block_def prepare_def tune_def squarings_def finish_def
  conclude_def and_then_def call_def emit_def ok_def stop_with_def call_once_init_def
  initial_state_def toy_prims_def select_parameters_def record_parameters_def
  squaring_iteration_def store_checkpoint_def report_progress_def validate_y_ref_def
  empty_result_def

subsection \<open>The whole function\<close>

lemma prove_one_weso_slow_cases [case_names rejected ran]:
  obtains
    (rejected) p where
      "prove_one_weso_slow P t ch xs yr chk bits n pi cb ud s =
         \<lparr>returned = Returned p empty_result, events = [], after = s\<rparr>"
      "p = Null_or_empty_input \<or> p = Zero_iterations_or_size"
  | (ran) c xb r w' where "ch = Some c" "xs = Some xb" "c \<noteq> []" "xb \<noteq> []" "n \<noteq> 0" "bits \<noteq> 0"
      "try_block P t c xb yr chk bits n pi cb ud (s, []) = (r, w')"
      "prove_one_weso_slow P t ch xs yr chk bits n pi cb ud s =
         \<lparr>returned = outcome_of r, events = snd w', after = fst w'\<rparr>"
proof (cases "ch = None \<or> ch = Some [] \<or> xs = None \<or> xs = Some [] \<or> n = 0 \<or> bits = 0")
  case True
  then have "\<exists>p. prove_one_weso_slow P t ch xs yr chk bits n pi cb ud s =
         \<lparr>returned = Returned p empty_result, events = [], after = s\<rparr> \<and>
       (p = Null_or_empty_input \<or> p = Zero_iterations_or_size)"
    by (auto simp: prove_one_weso_slow_def split: option.splits)
  then show thesis
    using rejected by blast
next
  case False
  then obtain c xb where v: "ch = Some c" "xs = Some xb" "c \<noteq> []" "xb \<noteq> []" "n \<noteq> 0" "bits \<noteq> 0"
    by auto
  obtain r w' where tb: "try_block P t c xb yr chk bits n pi cb ud (s, []) = (r, w')"
    by (cases "try_block P t c xb yr chk bits n pi cb ud (s, [])")
  have "prove_one_weso_slow P t ch xs yr chk bits n pi cb ud s =
         \<lparr>returned = outcome_of r, events = snd w', after = fst w'\<rparr>"
  proof (cases r)
    case (Inl a)
    with v tb show ?thesis
      by (cases a) (simp_all add: prove_one_weso_slow_def)
  next
    case (Inr res)
    with v tb show ?thesis
      by (simp add: prove_one_weso_slow_def)
  qed
  with v tb show thesis
    by (rule ran)
qed

lemma prepare_quiet:
  assumes "prepare P c xb bits w = (Inr v, w1)" and "quiet P (snd w)"
  shows "quiet P (snd w1)"
proof -
  obtain D L x y d where "v = (D, L, x, y, d)"
    by (cases v)
  with assms(1) have "prepare P c xb bits w = (Inr (D, L, x, y, d), w1)"
    by simp
  from prepare_Inr [OF this] assms(2) show ?thesis
    by (simp add: quiet_append quiet_Cons quiet_Nil thrown_def)
qed

lemma prepare_stage:
  assumes "prepare P c xb bits w = (r, w1)"
  shows "\<exists>new. snd w1 = snd w @ new \<and> (\<forall>ev\<in>set new. stage ev = 0)"
proof (cases r)
  case (Inl a)
  with assms prepare_Inl [of P c xb bits w a w1] show ?thesis
    by blast
next
  case (Inr v)
  obtain D L x y d where "v = (D, L, x, y, d)"
    by (cases v)
  with Inr assms have "prepare P c xb bits w = (Inr (D, L, x, y, d), w1)"
    by simp
  from prepare_Inr [OF this] show ?thesis
    by simp
qed

lemma tune_world:
  assumes "tune P t n w = (r, w')"
  shows "snd w' = snd w @ [ApproximateParameters_call n]"
proof (cases r)
  case (Inl a)
  with assms tune_Inl [of P t n w a w'] show ?thesis
    by simp
next
  case (Inr v)
  obtain k l kl where "v = (k, l, kl)"
    by (cases v)
  with Inr assms tune_Inr [of P t n w k l kl w'] show ?thesis
    by simp
qed

lemma try_block_exn_shape:
  assumes "try_block P t c xb yr chk bits n pi cb ud w = (r, w')" and q: "quiet P (snd w)"
  shows "exn_shape P r (snd w')"
  using assms(1)
proof (cases rule: try_block_cases)
  case (prepare a)
  from prepare_Inl [OF prepare(1)] q prepare(2) show ?thesis
    by (auto simp: exn_shape_def butlast_append quiet_append)
next
  case (tune D L x y d w1 a)
  from prepare_quiet [OF tune(1) q] tune_Inl [OF tune(2)] tune(3) show ?thesis
    by (simp add: exn_shape_def quiet_append quiet_Cons quiet_Nil)
next
  case (squarings D L x y d w1 k l kl w2 a)
  from prepare_quiet [OF squarings(1) q] tune_world [OF squarings(2)]
  have "quiet P (snd w2)"
    by (simp add: quiet_append quiet_Cons quiet_Nil)
  with squarings(3) have "exn_shape P (Inl a :: stop + 'a \<times> 'a list) (snd w')"
    by (rule squarings_exn_shape)
  with squarings(4) show ?thesis
    by (simp add: exn_shape_def)
next
  case (finish D L x y d w1 k l kl w2 yT ims w3)
  from prepare_quiet [OF finish(1) q] tune_world [OF finish(2)]
  have "quiet P (snd w2)"
    by (simp add: quiet_append quiet_Cons quiet_Nil)
  with finish(3) have "exn_shape P (Inr (yT, ims) :: stop + 'a \<times> 'a list) (snd w3)"
    by (rule squarings_exn_shape)
  then have "quiet P (snd w3)"
    by (simp add: exn_shape_def)
  with finish(4) show ?thesis
    by (rule finish_exn_shape)
qed

lemma try_block_Return:
  assumes "try_block P t c xb yr chk bits n pi cb ud w = (Inl (Return p res), w')"
  shows "res = empty_result \<and>
     (p = Encoding_fault \<or>
      chk \<and> (p = Reference_missing \<or> p = Reference_length_mismatch \<or>
        p = Reference_content_mismatch))"
  using assms
proof (cases rule: try_block_cases)
  case (prepare a)
  from prepare_Inl [OF prepare(1)] prepare(2) show ?thesis
    by auto
next
  case (tune D L x y d w1 a)
  from tune_Inl [OF tune(2)] tune(3) show ?thesis
    by auto
next
  case (squarings D L x y d w1 k l kl w2 a)
  from squarings_abort [OF squarings(3)] squarings(4) show ?thesis
    by auto
next
  case (finish D L x y d w1 k l kl w2 yT ims w3)
  from finish_Inl [OF finish(4)] show ?thesis
    by auto
qed

lemma outcome_of_nonempty:
  assumes "try_block P t c xb yr chk bits n pi cb ud w = (r, w')"
    and "outcome_of r = Returned p res" and "res \<noteq> empty_result"
  shows "r = Inr res \<and> p = Proof_done"
proof (cases r)
  case (Inl a)
  show ?thesis
  proof (cases a)
    case (Throw e)
    with Inl assms(2,3) show ?thesis by simp
  next
    case (Return p' res')
    with Inl assms(1) have "res' = empty_result"
      by (auto dest: try_block_Return)
    with Inl Return assms(2,3) show ?thesis by simp
  next
    case Undefined
    with Inl assms(2) show ?thesis by simp
  qed
next
  case (Inr res')
  with assms(2) show ?thesis by simp
qed

lemma in_butlast_or_last: "xs \<noteq> [] \<Longrightarrow> x \<in> set xs \<Longrightarrow> x \<in> set (butlast xs) \<or> x = last xs"
  by (cases xs rule: rev_cases) auto

lemma exn_shape_loud:
  assumes "exn_shape P r evs" and "\<not> quiet P evs"
  obtains e where "r = Inl (Throw e)" "evs \<noteq> []" "thrown_by P (last evs) = Some e"
    "quiet P (butlast evs)"
proof (cases r)
  case (Inl a)
  show thesis
  proof (cases a)
    case (Throw e)
    with Inl assms(1) show thesis
      by (intro that [of e]) (simp_all add: exn_shape_def)
  next
    case (Return p res)
    with Inl assms show thesis
      by (simp add: exn_shape_def)
  next
    case Undefined
    with Inl assms show thesis
      by (simp add: exn_shape_def)
  qed
next
  case (Inr v)
  with assms show thesis
    by (simp add: exn_shape_def)
qed

subsection \<open>How far a call got\<close>

lemma stages_before_finish:
  assumes p: "prepare P c xb bits (s, []) = (Inr v, w1)"
    and t: "tune P t n w1 = (Inr u, w2)"
    and q: "squarings P D L kl n pi cb ud y w2 = (r, w3)"
  shows "\<forall>ev\<in>set (snd w3). stage ev \<le> 2"
proof -
  from prepare_stage [OF p] have "\<forall>ev\<in>set (snd w1). stage ev = 0"
    by simp
  moreover from tune_world [OF t] have "snd w2 = snd w1 @ [ApproximateParameters_call n]" .
  moreover from squarings_extends [OF q]
  obtain new where "snd w3 = snd w2 @ new" "\<forall>ev\<in>set new. stage ev = 2"
    by (auto simp: loop_extends_def)
  ultimately show ?thesis
    by auto
qed

lemma try_block_reached_finish [consumes 3, case_names finish]:
  assumes tb: "try_block P t c xb yr chk bits n pi cb ud (s, []) = (r, w')"
    and ev: "ev \<in> set (snd w')" and st: "3 \<le> stage ev"
  obtains D L x y d w1 w2 yT ims w3 where
    "prepare P c xb bits (s, []) = (Inr (D, L, x, y, d), w1)"
    "tune P t n w1 = (Inr (plan_k P n, plan_l P n, plan_k P n * plan_l P n), w2)"
    "squarings P D L (plan_k P n * plan_l P n) n pi cb ud y w2 = (Inr (yT, ims), w3)"
    "finish P x D d n (plan_k P n) (plan_l P n) yr chk yT ims w3 = (r, w')"
    "\<forall>ev\<in>set (snd w3). stage ev \<le> 2"
  using tb
proof (cases rule: try_block_cases)
  case (prepare a)
  from prepare_stage [OF prepare(1)] ev st show ?thesis
    by auto
next
  case (tune D L x y d w1 a)
  from prepare_stage [OF tune(1)] tune_world [OF tune(2)] ev st show ?thesis
    by auto
next
  case (squarings D L x y d w1 k l kl w2 a)
  from stages_before_finish [OF squarings(1,2,3)] ev st show ?thesis
    by fastforce
next
  case (finish D L x y d w1 k l kl w2 yT ims w3)
  from tune_Inr [OF finish(2)] have "k = plan_k P n" "l = plan_l P n"
    "kl = plan_k P n * plan_l P n"
    by simp_all
  with finish stages_before_finish [OF finish(1,2,3)] that show ?thesis
    by blast
qed

lemma try_block_defined:
  assumes tb: "try_block P t c xb yr chk bits n pi cb ud w = (r, w')" and fits: "fits P n"
  shows "r \<noteq> Inl Undefined"
  using tb
proof (cases rule: try_block_cases)
  case (prepare a)
  from prepare_Inl [OF prepare(1)] prepare(2) show ?thesis
    by auto
next
  case (tune D L x y d w1 a)
  from tune_Inl [OF tune(2)] fits show ?thesis
    by (simp add: fits_def)
next
  case (squarings D L x y d w1 k l kl w2 a)
  from tune_Inr [OF squarings(2)] have kl: "kl = plan_k P n * plan_l P n"
    and small: "sint (plan_k P n) * sint (plan_l P n) < 2 ^ 31"
    by simp_all
  from plan_product_word [OF small] kl
  have s: "sint kl = sint (plan_k P n) * sint (plan_l P n)"
    by simp
  with plan_product_pos [of P n] have pos: "0 < sint kl"
    by simp
  from s have "nat (sint kl) = plan_kl P n"
    by (simp add: plan_kl_def)
  with fits have "unat n + nat (sint kl) - 1 < 2 ^ 64"
    by (simp add: fits_def)
  with squarings(3) pos have "\<exists>e. a = Throw e"
    by (rule squarings_defined)
  with squarings(4) show ?thesis
    by auto
next
  case (finish D L x y d w1 k l kl w2 yT ims w3)
  from finish_Inl [of P x D d n k l yr chk yT ims w3 Undefined w'] finish(4)
  show ?thesis
    by auto
qed

lemma defined_behaviour:
  assumes "fits P n"
  shows "returned (prove_one_weso_slow P t ch xs yr chk bits n pi cb ud s) \<noteq>
    Undefined_behaviour"
proof (cases rule: prove_one_weso_slow_cases [of P t ch xs yr chk bits n pi cb ud s])
  case (rejected p)
  then show ?thesis by simp
next
  case (ran c xb r w')
  from try_block_defined [OF ran(7) assms] have "outcome_of r \<noteq> Undefined_behaviour"
    by (cases r rule: outcome_of.cases) simp_all
  with ran(8) show ?thesis
    by simp
qed

lemma try_block_success [consumes 1]:
  assumes "try_block P t c xb yr chk bits n pi cb ud (s, []) = (Inr res, w')"
  obtains D x y ims wproof ys ps where
    "CreateDiscriminant P c (ucast bits) = Inr D"
    "GenerateWesolowski_call y x D ims n (scast (plan_k P n)) (scast (plan_l P n))
       \<in> set (snd w')"
    "GenerateWesolowski P y x D ims n (scast (plan_k P n)) (scast (plan_l P n)) = Inr wproof"
    "SerializeForm P y (num_bits P D) = Inr ys"
    "SerializeForm P wproof (num_bits P D) = Inr ps" "ys \<noteq> []" "ps \<noteq> []"
    "res = \<lparr>data = Some (ys @ ps), length' = length ys + length ps\<rparr>"
    "chk \<longrightarrow> yr = Some ys"
  using assms
proof (cases rule: try_block_cases)
  case (finish D L x y d w1 k l kl w2 yT ims w3)
  from prepare_Inr [OF finish(1)] have D: "CreateDiscriminant P c (ucast bits) = Inr D"
    and d: "d = num_bits P D"
    by simp_all
  from tune_Inr [OF finish(2)] have k: "k = plan_k P n" "l = plan_l P n"
    by simp_all
  from finish_Inr [OF finish(4)] obtain wproof ys ps where
    gw: "GenerateWesolowski P yT x D ims n (scast k) (scast l) = Inr wproof"
    and ser: "SerializeForm P yT d = Inr ys" "SerializeForm P wproof d = Inr ps"
    and ne: "ys \<noteq> []" "ps \<noteq> []"
    and res: "res = \<lparr>data = Some (ys @ ps), length' = length ys + length ps\<rparr>"
    and ref: "chk \<longrightarrow> yr = Some ys"
    and evs: "snd w' = snd w3 @ [GenerateWesolowski_call yT x D ims n (scast k) (scast l),
        SerializeForm_call yT d, SerializeForm_call wproof d] @
        (if chk then [Validate_y_ref] else [])"
    by blast
  from evs have "GenerateWesolowski_call yT x D ims n (scast k) (scast l) \<in> set (snd w')"
    by simp
  from D this gw ser ne res ref show ?thesis
    unfolding d k by (rule that)
qed simp_all

subsection \<open>Progress calls and squarings of the loop\<close>

lemma progress_calls_append: "progress_calls (xs @ ys) = progress_calls xs @ progress_calls ys"
  by (simp add: progress_calls_def)

lemma progress_calls_stage: "\<forall>ev\<in>set evs. stage ev \<noteq> 2 \<Longrightarrow> progress_calls evs = []"
proof -
  have "stage ev = 2" if "is_progress ev" for ev :: "'a event"
    using that by (cases ev) simp_all
  then show "\<forall>ev\<in>set evs. stage ev \<noteq> 2 \<Longrightarrow> progress_calls evs = []"
    by (auto simp: progress_calls_def filter_empty_conv)
qed

lemma squarings_stage: "\<forall>ev\<in>set evs. stage ev \<noteq> 2 \<Longrightarrow> filter is_squaring evs = []"
proof -
  have "stage ev = 2" if "is_squaring ev" for ev :: "'a event"
    using that by (cases ev) simp_all
  then show "\<forall>ev\<in>set evs. stage ev \<noteq> 2 \<Longrightarrow> filter is_squaring evs = []"
    by (auto simp: filter_empty_conv)
qed

lemma squarings_progress_events: "filter is_squaring (progress_events n pi cb ud i) = []"
  by (simp add: progress_events_def split: option.splits)

text \<open>The counts at which the progress callback is due, for \<open>m\<close> completed squarings.\<close>

lemma due_0: "due T p 0 = []"
  by (simp add: due_def)

lemma due_Suc: "due T p (Suc m) = due T p m @ (if Suc m = T \<or> Suc m mod p = 0 then [Suc m] else [])"
  by (simp add: due_def)

lemma progress_events_due:
  assumes lt: "i < n" and pi: "pi \<noteq> 0"
  shows "progress_events n pi (Some c) ud i =
    map (\<lambda>d. Progress_call c (word_of_nat d) ud)
      (if Suc (unat i) = unat n \<or> Suc (unat i) mod unat pi = 0 then [Suc (unat i)] else [])"
proof -
  have suc: "unat (i + 1) = Suc (unat i)"
    using lt by (rule unat_succ)
  have a: "i + 1 = n \<longleftrightarrow> Suc (unat i) = unat n"
    using suc by (metis word_unat_eq_iff)
  have b: "(i + 1) mod pi = 0 \<longleftrightarrow> Suc (unat i) mod unat pi = 0"
    using suc by (simp add: word_mod_eq_0)
  have c: "word_of_nat (Suc (unat i)) = i + 1"
    by simp
  show ?thesis
    unfolding progress_events_def option.case a b using pi c by simp
qed

lemma squaring_loop_count:
  assumes run: "squaring_loop P D L kl n pi cb ud 0 y0 ims0 0 w0 = (Inr (yT, imsT), w')"
  shows "length (filter is_squaring (snd w')) = length (filter is_squaring (snd w0)) + unat n"
proof -
  let ?I = "\<lambda>(i :: uint64_t) (y :: 'a) (ims :: 'a list) (cur :: nat) (w :: 'a world).
      unat i \<le> unat n \<and>
      length (filter is_squaring (snd w)) = length (filter is_squaring (snd w0)) + unat i"
  have init: "?I 0 y0 ims0 0 w0"
    by simp
  have step: "?I (i + 1) y' ims' cur' w1"
    if lt: "i < n" and inv: "?I i y ims cur w"
      and it: "squaring_iteration P D L kl n pi cb ud i y ims cur w = (Inr (y', ims', cur'), w1)"
    for i y ims cur w y' ims' cur' w1
  proof -
    have suc: "unat (i + 1) = Suc (unat i)"
      using lt by (rule unat_succ)
    with lt have le: "unat (i + 1) \<le> unat n"
      by (simp add: word_less_nat_alt)
    from squaring_iteration_Inr [OF it] obtain y1 where
      "snd w1 = snd w @ [Nudupl_form_call y D L, Reduce_call y1] @ progress_events n pi cb ud i"
      by blast
    then have "length (filter is_squaring (snd w1)) = Suc (length (filter is_squaring (snd w)))"
      by (simp add: squarings_progress_events)
    with inv le show ?thesis
      by (simp add: suc)
  qed
  from run have "\<exists>iT (curT :: nat). \<not> iT < n \<and> ?I iT yT imsT curT w'"
    by (rule squaring_loop_Inr_rule [where I = ?I]) (rule init, rule step, assumption+)
  then obtain iT where "\<not> iT < n" "unat iT \<le> unat n"
    and pc: "length (filter is_squaring (snd w')) = length (filter is_squaring (snd w0)) + unat iT"
    by blast
  then have "iT = n"
    by (simp add: word_not_less_eq)
  with pc show ?thesis
    by simp
qed

subsection \<open>The list of due counts\<close>

lemma multiples_upto: "0 < p \<Longrightarrow> length (filter (\<lambda>d. d mod p = 0) [1..<Suc m]) = m div p"
  by (induction m) (auto simp: div_Suc)

lemma due_last:
  assumes "0 < T"
  shows "due T p T = filter (\<lambda>d. d mod p = 0) [1..<T] @ [T]"
proof -
  obtain m where T: "T = Suc m"
    using assms by (cases T) auto
  have "filter (\<lambda>d. d = T \<or> d mod p = 0) [1..<T] = filter (\<lambda>d. d mod p = 0) [1..<T]"
    by (rule filter_cong) auto
  then show ?thesis
    by (simp add: due_def T)
qed

lemma length_due:
  assumes "0 < T" and "0 < p"
  shows "length (due T p T) = ceil_div T p"
proof -
  obtain m where T: "T = Suc m"
    using assms(1) by (cases T) auto
  have "due T p T = filter (\<lambda>d. d mod p = 0) [1..<T] @ [T]"
    using assms(1) by (rule due_last)
  then have "length (due T p T) = Suc (length (filter (\<lambda>d. d mod p = 0) [1..<T]))"
    by simp
  also have "\<dots> = Suc (m div p)"
    using multiples_upto [OF assms(2), of m] by (simp add: T del: upt_Suc)
  finally have "length (due T p T) = Suc (m div p)" .
  moreover have "(m + p) div p = Suc (m div p)"
    using assms(2) by (simp add: div_add_self2)
  ultimately show ?thesis
    by (simp add: ceil_div_def T)
qed

lemma sorted_due: "sorted_wrt (<) (due T p m)"
  unfolding due_def by (intro sorted_wrt_filter) (rule sorted_wrt_upt)

lemma due_bounded: "d \<in> set (due T p m) \<Longrightarrow> 1 \<le> d \<and> d \<le> m"
  by (auto simp: due_def)

lemma ceil_div_pos: "0 < n \<Longrightarrow> 0 < k \<Longrightarrow> 0 < ceil_div n k"
  by (simp add: ceil_div_def div_greater_zero_iff)

subsection \<open>A call that reached the generation of the proof\<close>

lemma stage_proof_generation: "is_proof_generation ev \<Longrightarrow> stage ev = 3"
  by (cases ev) simp_all

lemma reached_proof_cases [consumes 2, case_names generated]:
  assumes ev: "ev \<in> set (events (prove_one_weso_slow P t ch xs yr chk bits n pi cb ud s))"
    and st: "3 \<le> stage ev"
  obtains c xb r w' D L x y0 w1 w2 yT ims w3 new where
    "ch = Some c" "xs = Some xb" "n \<noteq> 0"
    "prove_one_weso_slow P t ch xs yr chk bits n pi cb ud s =
       \<lparr>returned = outcome_of r, events = snd w', after = fst w'\<rparr>"
    "prepare P c xb bits (s, []) = (Inr (D, L, x, y0, num_bits P D), w1)"
    "tune P t n w1 = (Inr (plan_k P n, plan_l P n, plan_k P n * plan_l P n), w2)"
    "squarings P D L (plan_k P n * plan_l P n) n pi cb ud y0 w2 = (Inr (yT, ims), w3)"
    "finish P x D (num_bits P D) n (plan_k P n) (plan_l P n) yr chk yT ims w3 = (r, w')"
    "\<forall>ev\<in>set (snd w3). stage ev \<le> 2"
    "snd w' = snd w3 @
       GenerateWesolowski_call yT x D ims n (scast (plan_k P n)) (scast (plan_l P n)) # new"
    "\<forall>ev\<in>set new. 4 \<le> stage ev"
proof (cases rule: prove_one_weso_slow_cases [of P t ch xs yr chk bits n pi cb ud s])
  case (rejected p)
  with ev show ?thesis
    by simp
next
  case (ran c xb r w')
  from ev ran(8) have ev': "ev \<in> set (snd w')"
    by simp
  from ran(7) ev' st show ?thesis
  proof (cases rule: try_block_reached_finish)
    case (finish D L x y d w1 w2 yT ims w3)
    from prepare_Inr [OF finish(1)] have d: "d = num_bits P D"
      by simp
    from finish_events [OF finish(4)] obtain new where
      "snd w' = snd w3 @
         GenerateWesolowski_call yT x D ims n (scast (plan_k P n)) (scast (plan_l P n)) # new"
      "\<forall>ev\<in>set new. 4 \<le> stage ev"
      by blast
    with ran(1,2,5,8) finish show ?thesis
      unfolding d by (rule that)
  qed
qed

lemma reached_proof_product:
  assumes "tune P t n w1 = (Inr (plan_k P n, plan_l P n, plan_k P n * plan_l P n), w2)"
  shows "0 < sint (plan_k P n * plan_l P n) \<and> nat (sint (plan_k P n * plan_l P n)) = plan_kl P n"
proof -
  from tune_Inr [OF assms] have "sint (plan_k P n) * sint (plan_l P n) < 2 ^ 31"
    by simp
  from plan_product_word [OF this] plan_product_pos [of P n] show ?thesis
    by (simp add: plan_kl_def)
qed

subsection \<open>Events before the proof of a call that generated one\<close>

lemma before_proof_events:
  assumes p: "prepare P c xb bits (s, []) = (Inr v, w1)"
    and t: "tune P t n w1 = (Inr u, w2)"
  shows "progress_calls (snd w2) = [] \<and> filter is_squaring (snd w2) = []"
proof -
  from prepare_stage [OF p] have "\<forall>ev\<in>set (snd w1). stage ev = 0"
    by simp
  with tune_world [OF t] have "\<forall>ev\<in>set (snd w2). stage ev \<noteq> 2"
    by auto
  then show ?thesis
    by (simp add: progress_calls_stage squarings_stage)
qed

subsection \<open>The parameters a call leaves behind\<close>

lemma stage_ApproximateParameters_call: "stage (ApproximateParameters_call n :: 'f event) = 1"
  by simp

lemma not_in_stage_0:
  assumes "\<forall>ev\<in>set new. stage ev = 0"
  shows "(ApproximateParameters_call n :: 'f event) \<notin> set new"
proof
  assume "ApproximateParameters_call n \<in> set new"
  with assms have "stage (ApproximateParameters_call n :: 'f event) = 0"
    by blast
  then show False
    by simp
qed

lemma last_parameters_after:
  fixes P :: "'f prims"
  assumes run: "run = prove_one_weso_slow P t ch xs yr chk bits n pi cb ud s"
  shows "last_streaming_parameters (after run) = last_streaming_parameters s \<and>
       (ApproximateParameters_call n \<notin> set (events run) \<or> returned run = Undefined_behaviour) \<or>
     ApproximateParameters_call n \<in> set (events run) \<and>
       last_streaming_parameters (after run) =
         (last_streaming_parameters s)
           (t := \<lparr>last_k = plan_k P n, last_l = plan_l P n, last_tuned = False,
                   last_set = True\<rparr>)"
proof (cases rule: prove_one_weso_slow_cases [of P t ch xs yr chk bits n pi cb ud s])
  case (rejected p)
  with run show ?thesis
    by simp
next
  case (ran c xb r w')
  from run ran(8) have r: "returned run = outcome_of r" "events run = snd w'" "after run = fst w'"
    by simp_all
  from ran(7) show ?thesis
  proof (cases rule: try_block_cases)
    case (prepare a)
    from prepare_Inl [OF prepare(1)] obtain new where
      "fst w' = s\<lparr>init_once := True\<rparr>" "snd w' = new" "\<forall>ev\<in>set new. stage ev = 0"
      by auto
    with r not_in_stage_0 [of new n] show ?thesis
      by simp
  next
    case (tune D L x y d w1 a)
    from prepare_Inr [OF tune(1)] have "fst w1 = s\<lparr>init_once := True\<rparr>"
      by simp
    moreover from tune_Inl [OF tune(2)] have "a = Undefined" "fst w' = fst w1"
      by simp_all
    ultimately show ?thesis
      using r tune(3) by simp
  next
    case (squarings D L x y d w1 k l kl w2 a)
    from prepare_Inr [OF squarings(1)] have w1: "fst w1 = s\<lparr>init_once := True\<rparr>"
      by simp
    from tune_Inr [OF squarings(2)] have
      w2: "fst w2 = (fst w1)\<lparr>last_streaming_parameters := (last_streaming_parameters (fst w1))
                  (t := \<lparr>last_k = plan_k P n, last_l = plan_l P n, last_tuned = False,
                          last_set = True\<rparr>),
               last_streaming_stats := (last_streaming_stats (fst w1)) (t := default_stats)\<rparr>"
      and e2: "snd w2 = snd w1 @ [ApproximateParameters_call n]"
      by simp_all
    from squarings_extends [OF squarings(3)] obtain new where
      w': "fst w' = fst w2" "snd w' = snd w2 @ new"
      by (auto simp: loop_extends_def)
    from w' e2 r have "ApproximateParameters_call n \<in> set (events run)"
      by simp
    moreover from w' w2 w1 r have "last_streaming_parameters (after run) =
         (last_streaming_parameters s)
           (t := \<lparr>last_k = plan_k P n, last_l = plan_l P n, last_tuned = False,
                   last_set = True\<rparr>)"
      by simp
    ultimately show ?thesis
      by blast
  next
    case (finish D L x y d w1 k l kl w2 yT ims w3)
    from prepare_Inr [OF finish(1)] have w1: "fst w1 = s\<lparr>init_once := True\<rparr>"
      by simp
    from tune_Inr [OF finish(2)] have
      w2: "fst w2 = (fst w1)\<lparr>last_streaming_parameters := (last_streaming_parameters (fst w1))
                  (t := \<lparr>last_k = plan_k P n, last_l = plan_l P n, last_tuned = False,
                          last_set = True\<rparr>),
               last_streaming_stats := (last_streaming_stats (fst w1)) (t := default_stats)\<rparr>"
      and e2: "snd w2 = snd w1 @ [ApproximateParameters_call n]"
      by simp_all
    from squarings_extends [OF finish(3)] obtain new where
      w3: "fst w3 = fst w2" "snd w3 = snd w2 @ new"
      by (auto simp: loop_extends_def)
    from finish_events [OF finish(4)] obtain new' where
      w': "fst w' = fst w3" "snd w' = snd w3 @ new'"
      by auto
    from w' w3 e2 r have "ApproximateParameters_call n \<in> set (events run)"
      by simp
    moreover from w' w3 w2 w1 r have "last_streaming_parameters (after run) =
         (last_streaming_parameters s)
           (t := \<lparr>last_k = plan_k P n, last_l = plan_l P n, last_tuned = False,
                   last_set = True\<rparr>)"
      by simp
    ultimately show ?thesis
      by blast
  qed
qed

subsection \<open>What the tuning step does, and what the call does with the plan\<close>








subsection \<open>The pace of the progress calls\<close>

lemma progress_not_completes: "is_progress ev \<Longrightarrow> \<not> completes P ev"
  by (cases ev) simp_all

lemma completes_stage: "completes P ev \<Longrightarrow> stage ev = 2"
  by (cases ev) simp_all

lemma progress_stage: "is_progress ev \<Longrightarrow> stage ev = 2"
  by (cases ev) simp_all

lemma completed_append: "completed P (xs @ ys) = completed P xs + completed P ys"
  by (simp add: completed_def)

lemma completed_at_append:
  "completed_at P m (xs @ ys) = completed_at P m xs @ completed_at P (m + completed P xs) ys"
proof (induction xs arbitrary: m)
  case Nil
  then show ?case
    by (simp add: completed_def)
next
  case (Cons ev xs)
  show ?case
  proof (cases "is_progress ev")
    case True
    then have "\<not> completes P ev"
      by (rule progress_not_completes)
    with True Cons [of m] show ?thesis
      by (simp add: completed_def)
  next
    case False
    with Cons [of "if completes P ev then Suc m else m"] show ?thesis
      by (simp add: completed_def)
  qed
qed

lemma completed_at_silent: "\<forall>ev\<in>set evs. \<not> is_progress ev \<Longrightarrow> completed_at P m evs = []"
  by (induction evs arbitrary: m) simp_all

lemma completed_silent: "\<forall>ev\<in>set evs. \<not> completes P ev \<Longrightarrow> completed P evs = 0"
  by (simp add: completed_def filter_empty_conv)

lemma progress_calls_silent: "\<forall>ev\<in>set evs. \<not> is_progress ev \<Longrightarrow> progress_calls evs = []"
  by (simp add: progress_calls_def filter_empty_conv)

lemma completed_at_calls:
  "completed_at P m (map (\<lambda>d. Progress_call c (f d) ud) ds) = map (\<lambda>d. m) ds"
  by (induction ds) simp_all

lemma paced_init:
  assumes "\<forall>ev\<in>set evs. stage ev \<noteq> 2"
  shows "paced P c ud T p 0 evs"
proof -
  from assms have a: "\<forall>ev\<in>set evs. \<not> is_progress ev"
    by (auto dest: progress_stage)
  from assms have b: "\<forall>ev\<in>set evs. \<not> completes P ev"
    by (auto dest: completes_stage)
  from a b show ?thesis
    by (simp add: paced_def completed_at_silent completed_silent progress_calls_silent due_0)
qed

lemma paced_tail:
  assumes p: "paced P c ud T p m evs"
    and a: "\<forall>ev\<in>set xs. \<not> is_progress ev" and b: "\<forall>ev\<in>set xs. \<not> completes P ev"
  shows "paced P c ud T p m (evs @ xs)"
  using p
  by (simp add: paced_def completed_append completed_at_append progress_calls_append
      completed_at_silent [OF a] completed_silent [OF b] progress_calls_silent [OF a])

lemma paced_step:
  assumes p: "paced P c ud T p m evs" and lt: "m < T" and r: "reduce P y1 = Inr y'"
  shows "paced P c ud T p (Suc m)
    (evs @ [Nudupl_form_call y D L, Reduce_call y1] @
       map (\<lambda>d. Progress_call c (word_of_nat d) ud)
         (if Suc m = T \<or> Suc m mod p = 0 then [Suc m] else []))"
proof -
  let ?ds = "if Suc m = T \<or> Suc m mod p = 0 then [Suc m] else []"
  let ?calls = "map (\<lambda>d. Progress_call c (word_of_nat d) ud) ?ds"
  let ?sq = "[Nudupl_form_call y D L, Reduce_call y1]"
  from p have m: "completed P evs = m"
    and pc: "progress_calls evs = map (\<lambda>d. Progress_call c (word_of_nat d) ud) (due T p m)"
    and at: "completed_at P 0 evs = due T p m"
    by (simp_all add: paced_def)
  have c1: "completed P ?sq = 1"
    using r by (simp add: completed_def thrown_def)
  have c2: "completed P ?calls = 0"
    by (simp add: completed_def)
  have "completed P (evs @ ?sq @ ?calls) = Suc m"
    using m c1 c2 by (simp only: completed_append)
  moreover have "progress_calls (evs @ ?sq @ ?calls) =
      map (\<lambda>d. Progress_call c (word_of_nat d) ud) (due T p (Suc m))"
    using pc by (simp add: progress_calls_def due_Suc)
  moreover have "completed_at P 0 (evs @ ?sq @ ?calls) = due T p (Suc m)"
  proof -
    have "completed_at P 0 (evs @ ?sq @ ?calls) =
        completed_at P 0 evs @ completed_at P m (?sq @ ?calls)"
      using m by (simp only: completed_at_append add_0)
    also have "completed_at P m (?sq @ ?calls) = completed_at P (Suc m) ?calls"
      using r by (simp add: thrown_def)
    also have "\<dots> = map (\<lambda>d. Suc m) ?ds"
      by (rule completed_at_calls)
    also have "\<dots> = ?ds"
      by simp
    finally show ?thesis
      using at by (simp add: due_Suc)
  qed
  moreover from lt have "Suc m \<le> T"
    by simp
  ultimately show ?thesis
    by (simp only: paced_def)
qed

lemma paced_iteration_Inr:
  assumes lt: "i < n" and pi: "pi \<noteq> 0"
    and p: "paced P c ud (unat n) (unat pi) (unat i) (snd w)"
    and it: "squaring_iteration P D L kl n pi (Some c) ud i y ims cur w =
      (Inr (y', ims', cur'), w1)"
  shows "paced P c ud (unat n) (unat pi) (unat (i + 1)) (snd w1)"
proof -
  have suc: "unat (i + 1) = Suc (unat i)"
    using lt by (rule unat_succ)
  from lt have l: "unat i < unat n"
    by (simp add: word_less_nat_alt)
  from squaring_iteration_Inr [OF it] obtain y1 where r: "reduce P y1 = Inr y'"
    and ev: "snd w1 = snd w @ [Nudupl_form_call y D L, Reduce_call y1] @
      progress_events n pi (Some c) ud i"
    by blast
  from paced_step [OF p l r, of y D L] show ?thesis
    by (simp only: ev suc progress_events_due [OF lt pi])
qed

lemma paced_iteration_Inl:
  fixes P :: "'f prims"
  assumes lt: "i < n" and pi: "pi \<noteq> 0"
    and p: "paced P c ud (unat n) (unat pi) (unat i) (snd w)"
    and it: "squaring_iteration P D L kl n pi (Some c) ud i y ims cur w = (Inl a, w1)"
  shows "\<exists>m. paced P c ud (unat n) (unat pi) m (snd w1)"
proof -
  have suc: "unat (i + 1) = Suc (unat i)"
    using lt by (rule unat_succ)
  from lt have l: "unat i < unat n"
    by (simp add: word_less_nat_alt)
  from squaring_iteration_Inl [OF it] consider
    (stopped) "snd w1 = snd w"
    | (squaring) "snd w1 = snd w @ [Nudupl_form_call y D L]"
    | (reduction) e y1 where "reduce P y1 = Inl e"
        "snd w1 = snd w @ [Nudupl_form_call y D L, Reduce_call y1]"
    | (callback) y1 y2 where "reduce P y1 = Inr y2"
        "progress_events n pi (Some c) ud i = [Progress_call c (i + 1) ud :: 'f event]"
        "snd w1 = snd w @ [Nudupl_form_call y D L, Reduce_call y1, Progress_call c (i + 1) ud]"
    by auto
  then show ?thesis
  proof cases
    case stopped
    with p show ?thesis
      by auto
  next
    case squaring
    have "paced P c ud (unat n) (unat pi) (unat i) (snd w @ [Nudupl_form_call y D L])"
      using p by (rule paced_tail) simp_all
    with squaring show ?thesis
      by auto
  next
    case (reduction e y1)
    have "paced P c ud (unat n) (unat pi) (unat i)
        (snd w @ [Nudupl_form_call y D L, Reduce_call y1])"
      using p by (rule paced_tail) (simp_all add: reduction(1) thrown_def)
    with reduction show ?thesis
      by auto
  next
    case (callback y1 y2)
    from paced_step [OF p l callback(1), of y D L]
    have "paced P c ud (unat n) (unat pi) (Suc (unat i))
        (snd w @ [Nudupl_form_call y D L, Reduce_call y1] @ progress_events n pi (Some c) ud i)"
      by (simp only: progress_events_due [OF lt pi])
    with callback(2,3) have "paced P c ud (unat n) (unat pi) (Suc (unat i)) (snd w1)"
      by simp
    then show ?thesis
      by blast
  qed
qed

lemma squaring_loop_paced:
  assumes run: "squaring_loop P D L kl n pi (Some c) ud 0 y0 ims0 0 w0 = (r, w')"
    and pi: "pi \<noteq> 0"
    and base: "paced P c ud (unat n) (unat pi) 0 (snd w0)"
  shows "\<exists>m. paced P c ud (unat n) (unat pi) m (snd w') \<and> (\<forall>v. r = Inr v \<longrightarrow> m = unat n)"
proof -
  let ?I = "\<lambda>(i :: uint64_t) (y :: 'a) (ims :: 'a list) (cur :: nat) (w :: 'a world).
      paced P c ud (unat n) (unat pi) (unat i) (snd w)"
  have init: "?I 0 y0 ims0 0 w0"
    using base by simp
  have step: "?I (i + 1) y' ims' cur' w1"
    if "i < n" and "?I i y ims cur w"
      and "squaring_iteration P D L kl n pi (Some c) ud i y ims cur w = (Inr (y', ims', cur'), w1)"
    for i y ims cur w y' ims' cur' w1
    using that(1) pi that(2,3) by (rule paced_iteration_Inr)
  show ?thesis
  proof (cases r)
    case (Inl a)
    with run have "squaring_loop P D L kl n pi (Some c) ud 0 y0 ims0 0 w0 = (Inl a, w')"
      by simp
    then have "\<exists>j y ims cur w. j < n \<and> ?I j y ims cur w \<and>
        squaring_iteration P D L kl n pi (Some c) ud j y ims cur w = (Inl a, w')"
      by (rule squaring_loop_Inl_rule [where I = ?I]) (rule init, rule step, assumption+)
    then obtain j y ims cur w where "j < n"
      and "paced P c ud (unat n) (unat pi) (unat j) (snd w)"
      and "squaring_iteration P D L kl n pi (Some c) ud j y ims cur w = (Inl a, w')"
      by blast
    from this(1) pi this(2,3) have "\<exists>m. paced P c ud (unat n) (unat pi) m (snd w')"
      by (rule paced_iteration_Inl)
    with Inl show ?thesis
      by auto
  next
    case (Inr v)
    obtain yT imsT where "v = (yT, imsT)"
      by (cases v)
    with Inr run
    have "squaring_loop P D L kl n pi (Some c) ud 0 y0 ims0 0 w0 = (Inr (yT, imsT), w')"
      by simp
    then have "\<exists>iT (curT :: nat). \<not> iT < n \<and> ?I iT yT imsT curT w'"
      by (rule squaring_loop_Inr_rule [where I = ?I]) (rule init, rule step, assumption+)
    then obtain iT where nl: "\<not> iT < n"
      and pc: "paced P c ud (unat n) (unat pi) (unat iT) (snd w')"
      by blast
    from pc have "unat iT \<le> unat n"
      by (simp add: paced_def)
    with nl have "iT = n"
      by (rule word_not_less_eq)
    with pc show ?thesis
      by auto
  qed
qed

lemma squarings_paced:
  assumes "squarings P D L kl n pi (Some c) ud y0 w0 = (r, w')" and "pi \<noteq> 0"
    and "paced P c ud (unat n) (unat pi) 0 (snd w0)"
  shows "\<exists>m. paced P c ud (unat n) (unat pi) m (snd w') \<and> (\<forall>v. r = Inr v \<longrightarrow> m = unat n)"
proof -
  from assms(1) have "squaring_loop P D L (scast kl) n pi (Some c) ud 0 y0
      (replicate (unat ((n + scast kl - 1) div scast kl)) (form_default P)) 0 w0 = (r, w')"
    by (simp add: squarings_def Let_def)
  from this assms(2,3) show ?thesis
    by (rule squaring_loop_paced)
qed

lemma run_paced:
  assumes pi: "pi \<noteq> 0"
  shows "\<exists>m. paced P c ud (unat n) (unat pi) m
        (events (prove_one_weso_slow P t ch xs yr chk bits n pi (Some c) ud s)) \<and>
      ((\<exists>ev\<in>set (events (prove_one_weso_slow P t ch xs yr chk bits n pi (Some c) ud s)).
          is_proof_generation ev) \<longrightarrow> m = unat n)"
proof (cases rule: prove_one_weso_slow_cases [of P t ch xs yr chk bits n pi "Some c" ud s])
  case (rejected p)
  have "paced P c ud (unat n) (unat pi) 0 []"
    by (rule paced_init) simp
  with rejected(1) show ?thesis
    by auto
next
  case (ran c' xb r w')
  have "\<exists>m. paced P c ud (unat n) (unat pi) m (snd w') \<and>
      ((\<exists>ev\<in>set (snd w'). is_proof_generation ev) \<longrightarrow> m = unat n)"
    using ran(7)
  proof (cases rule: try_block_cases)
    case (prepare a)
    from prepare_stage [OF prepare(1)] have st: "\<forall>ev\<in>set (snd w'). stage ev = 0"
      by simp
    then have "paced P c ud (unat n) (unat pi) 0 (snd w')"
      by (intro paced_init) simp
    moreover from st have "\<not> (\<exists>ev\<in>set (snd w'). is_proof_generation ev)"
      by (auto dest: stage_proof_generation)
    ultimately show ?thesis
      by blast
  next
    case (tune D L x y d w1 a)
    from prepare_stage [OF tune(1)] tune_world [OF tune(2)]
    have st: "\<forall>ev\<in>set (snd w'). stage ev \<le> 1"
      by auto
    then have "paced P c ud (unat n) (unat pi) 0 (snd w')"
      by (intro paced_init) fastforce
    moreover from st have "\<not> (\<exists>ev\<in>set (snd w'). is_proof_generation ev)"
      by (fastforce dest: stage_proof_generation)
    ultimately show ?thesis
      by blast
  next
    case (squarings D L x y d w1 k l kl w2 a)
    from prepare_stage [OF squarings(1)] tune_world [OF squarings(2)]
    have "\<forall>ev\<in>set (snd w2). stage ev \<noteq> 2"
      by auto
    then have "paced P c ud (unat n) (unat pi) 0 (snd w2)"
      by (rule paced_init)
    from squarings_paced [OF squarings(3) pi this]
    have "\<exists>m. paced P c ud (unat n) (unat pi) m (snd w')"
      by blast
    moreover from stages_before_finish [OF squarings(1,2,3)]
    have "\<not> (\<exists>ev\<in>set (snd w'). is_proof_generation ev)"
      by (fastforce dest: stage_proof_generation)
    ultimately show ?thesis
      by blast
  next
    case (finish D L x y d w1 k l kl w2 yT ims w3)
    from prepare_stage [OF finish(1)] tune_world [OF finish(2)]
    have "\<forall>ev\<in>set (snd w2). stage ev \<noteq> 2"
      by auto
    then have "paced P c ud (unat n) (unat pi) 0 (snd w2)"
      by (rule paced_init)
    from squarings_paced [OF finish(3) pi this]
    have p3: "paced P c ud (unat n) (unat pi) (unat n) (snd w3)"
      by auto
    from finish_events [OF finish(4)] obtain new where
      new: "snd w' = snd w3 @ GenerateWesolowski_call yT x D ims n (scast k) (scast l) # new"
      and st: "\<forall>ev\<in>set new. 4 \<le> stage ev"
      by blast
    have "paced P c ud (unat n) (unat pi) (unat n)
        (snd w3 @ GenerateWesolowski_call yT x D ims n (scast k) (scast l) # new)"
      using p3
    proof (rule paced_tail)
      show "\<forall>ev\<in>set (GenerateWesolowski_call yT x D ims n (scast k) (scast l) # new).
          \<not> is_progress ev"
        using st by (fastforce dest: progress_stage)
      show "\<forall>ev\<in>set (GenerateWesolowski_call yT x D ims n (scast k) (scast l) # new).
          \<not> completes P ev"
        using st by (fastforce dest: completes_stage)
    qed
    with new show ?thesis
      by auto
  qed
  with ran(8) show ?thesis
    by simp
qed

lemma word_of_nat_due_le:
  assumes "d \<in> set (due T p m)" and "m \<le> unat (n :: uint64_t)"
  shows "unat (word_of_nat d :: uint64_t) = d"
proof -
  from due_bounded [OF assms(1)] assms(2) have "d \<le> unat n"
    by simp
  then show ?thesis
    by (rule le_unat_uoi)
qed

lemma sorted_word_of_nat_due_le:
  assumes "m \<le> unat (n :: uint64_t)"
  shows "sorted_wrt (<) (map word_of_nat (due T p m) :: uint64_t list)"
proof -
  have "sorted_wrt (\<lambda>a b. (word_of_nat a :: uint64_t) < word_of_nat b) (due T p m)"
  proof (rule sorted_wrt_mono_rel [OF _ sorted_due])
    fix a b
    assume "a \<in> set (due T p m)" "b \<in> set (due T p m)" "a < b"
    then show "(word_of_nat a :: uint64_t) < word_of_nat b"
      using assms by (simp add: word_less_nat_alt word_of_nat_due_le)
  qed
  then show ?thesis
    by (simp add: sorted_wrt_map)
qed

lemma unat_due_le:
  assumes "m \<le> unat (n :: uint64_t)"
  shows "map (\<lambda>d. unat (word_of_nat d :: uint64_t)) (due T p m) = due T p m"
proof -
  have "map (\<lambda>d. unat (word_of_nat d :: uint64_t)) (due T p m) = map (\<lambda>d. d) (due T p m)"
    using assms by (intro map_cong) (simp_all add: word_of_nat_due_le)
  then show ?thesis
    by simp
qed

subsection \<open>What a call returns does not depend on the world\<close>

lemma fst_and_then:
  "fst (and_then m f w) = (case fst (m w) of Inl a \<Rightarrow> Inl a | Inr x \<Rightarrow> fst (f x (snd (m w))))"
  by (simp add: and_then_def split: prod.splits sum.splits)

lemma fst_call: "fst (call ev r w) = (case r of Inl e \<Rightarrow> Inl (Throw e) | Inr x \<Rightarrow> Inr x)"
  by (simp add: call_def)

lemma fst_emit: "fst (emit ev w) = Inr ()"
  by (simp add: emit_def)

lemma fst_ok: "fst (ok x w) = Inr x"
  by (simp add: ok_def)

lemma fst_stop_with: "fst (stop_with a w) = Inl a"
  by (simp add: stop_with_def)

lemma fst_call_once_init: "fst (call_once_init w) = Inr ()"
  by (simp add: call_once_init_def)

lemma fst_record_parameters: "fst (record_parameters t k l w) = Inr ()"
  by (simp add: record_parameters_def)

lemma fst_report_progress:
  "fst (report_progress P n pi cb ud i w) = progress_value P n pi cb ud i"
  by (simp add: progress_value_def report_progress_def fst_ok fst_call Let_def
      split: option.splits)

lemma fst_store_checkpoint:
  "fst (store_checkpoint kl i y ims cur w) = fst (store_checkpoint kl i y ims cur w0)"
  by (simp add: store_checkpoint_def fst_ok fst_stop_with)

lemma fst_validate_y_ref: "fst (validate_y_ref yr ys w) = fst (validate_y_ref yr ys w0)"
  by (simp add: validate_y_ref_def fst_and_then fst_emit fst_ok fst_stop_with
      split: option.splits)

lemmas fst_steps = fst_and_then fst_call fst_emit fst_ok fst_stop_with fst_call_once_init
  fst_record_parameters fst_report_progress

lemma fst_prepare: "fst (prepare P c xb bits w) = prepare_value P c xb bits"
  by (simp add: prepare_value_def prepare_def fst_steps split: sum.splits)

lemma fst_tune: "fst (tune P t n w) = tune_value P n"
  by (simp add: tune_value_def tune_def fst_steps Let_def split: sum.splits prod.splits)

lemma fst_conclude: "fst (conclude yr chk ys ps w) = fst (conclude yr chk ys ps w0)"
  using fst_validate_y_ref [of yr ys w w0]
  by (simp add: conclude_def fst_steps split: sum.splits)

lemma fst_finish:
  "fst (finish P x D d n k l yr chk y ims w) = finish_value P x D d n k l yr chk y ims"
  unfolding finish_value_def finish_def
  by (simp add: fst_steps split: sum.splits) (auto intro: fst_conclude)

lemma fst_squaring_iteration:
  "fst (squaring_iteration P D L kl n pi cb ud i y ims cur w) =
   fst (squaring_iteration P D L kl n pi cb ud i y ims cur w0)"
  using fst_store_checkpoint [of kl i y ims cur w w0]
  by (simp add: squaring_iteration_def fst_steps split: sum.splits prod.splits)

lemma fst_squaring_loop:
  "fst (squaring_loop P D L kl n pi cb ud i y ims cur w) =
   fst (squaring_loop P D L kl n pi cb ud i y ims cur w0)"
proof (induction "unat n - unat i" arbitrary: i y ims cur w w0 rule: less_induct)
  case less
  show ?case
  proof (cases "i < n")
    case False
    then show ?thesis
      by (simp add: squaring_loop.simps [of _ _ _ _ _ _ _ _ i])
  next
    case True
    obtain r w1 where it: "squaring_iteration P D L kl n pi cb ud i y ims cur w = (r, w1)"
      by (cases "squaring_iteration P D L kl n pi cb ud i y ims cur w")
    obtain r' w1' where it': "squaring_iteration P D L kl n pi cb ud i y ims cur w0 = (r', w1')"
      by (cases "squaring_iteration P D L kl n pi cb ud i y ims cur w0")
    from fst_squaring_iteration [of P D L kl n pi cb ud i y ims cur w w0] it it'
    have r: "r' = r"
      by simp
    show ?thesis
    proof (cases r)
      case (Inl a)
      with True it it' r show ?thesis
        by (simp add: squaring_loop.simps [of _ _ _ _ _ _ _ _ i])
    next
      case (Inr v)
      obtain y' ims' cur' where v: "v = (y', ims', cur')"
        by (cases v)
      from True have "unat n - unat (i + 1) < unat n - unat i"
        by (simp add: unat_succ word_less_nat_alt)
      then have "fst (squaring_loop P D L kl n pi cb ud (i + 1) y' ims' cur' w1) =
          fst (squaring_loop P D L kl n pi cb ud (i + 1) y' ims' cur' w1')"
        by (rule less.hyps)
      with True it it' r Inr v show ?thesis
        by (simp add: squaring_loop.simps [of _ _ _ _ _ _ _ _ i])
    qed
  qed
qed

lemma fst_squarings:
  "fst (squarings P D L kl n pi cb ud y w) = squarings_value P D L kl n pi cb ud y"
  unfolding squarings_value_def squarings_def Let_def by (rule fst_squaring_loop)

lemma fst_try_block:
  "fst (try_block P t c xb yr chk bits n pi cb ud w) = try_value P c xb yr chk bits n pi cb ud"
  by (simp add: try_block_def try_value_def fst_and_then fst_prepare fst_tune fst_squarings
      fst_finish split: sum.splits prod.splits)

lemma returned_value:
  "returned (prove_one_weso_slow P t ch xs yr chk bits n pi cb ud s) =
     run_value P ch xs yr chk bits n pi cb ud"
proof (cases "ch = None \<or> ch = Some [] \<or> xs = None \<or> xs = Some [] \<or> n = 0 \<or> bits = 0")
  case True
  then show ?thesis
    by (auto simp: prove_one_weso_slow_def run_value_def split: option.splits)
next
  case False
  then obtain c xb where v: "ch = Some c" "xs = Some xb" "c \<noteq> []" "xb \<noteq> []" "n \<noteq> 0" "bits \<noteq> 0"
    by auto
  obtain r w' where tb: "try_block P t c xb yr chk bits n pi cb ud (s, []) = (r, w')"
    by (cases "try_block P t c xb yr chk bits n pi cb ud (s, [])")
  from fst_try_block [of P t c xb yr chk bits n pi cb ud "(s, [])"] tb
  have r: "try_value P c xb yr chk bits n pi cb ud = r"
    by simp
  show ?thesis
  proof (cases r)
    case (Inl a)
    with v tb r show ?thesis
      by (cases a) (simp_all add: prove_one_weso_slow_def run_value_def)
  next
    case (Inr res)
    with v tb r show ?thesis
      by (simp add: prove_one_weso_slow_def run_value_def)
  qed
qed

subsection \<open>What the callback can change\<close>

text \<open>
  A callback changes what a part yields in one way only: by throwing. Each part run with a
  callback yields what it yields without one, or the exception some call of the callback
  threw.
\<close>

lemma progress_value_None: "progress_value P n 0 None 0 i = Inr ()"
  by (simp add: progress_value_def report_progress_def fst_ok)

lemma progress_value_cases:
  "progress_value P n pi cb ud i = Inr () \<or>
   (\<exists>c d e. cb = Some c \<and> invoke P c d ud = Inl e \<and>
      progress_value P n pi cb ud i = Inl (Throw e))"
proof -
  obtain r w' where rp: "report_progress P n pi cb ud i (initial_state, []) = (r, w')"
    by (cases "report_progress P n pi cb ud i (initial_state, [])")
  then have v: "progress_value P n pi cb ud i = r"
    by (simp add: progress_value_def)
  show ?thesis
  proof (cases r)
    case (Inl a)
    with rp report_progress_Inl [of P n pi cb ud i "(initial_state, [])" a w'] v show ?thesis
      by auto
  next
    case (Inr u)
    with v show ?thesis
      by simp
  qed
qed

lemma squaring_iteration_callback:
  "fst (squaring_iteration P D L kl n pi cb ud i y ims cur w) =
     fst (squaring_iteration P D L kl n 0 None 0 i y ims cur w0) \<or>
   (\<exists>c d e. cb = Some c \<and> invoke P c d ud = Inl e \<and>
      fst (squaring_iteration P D L kl n pi cb ud i y ims cur w) = Inl (Throw e))"
proof -
  from progress_value_cases [of P n pi cb ud i] consider
    (quiet) "progress_value P n pi cb ud i = Inr ()"
    | (threw) c d e where "cb = Some c" "invoke P c d ud = Inl e"
        "progress_value P n pi cb ud i = Inl (Throw e)"
    by blast
  then show ?thesis
  proof cases
    case quiet
    with fst_store_checkpoint [of kl i y ims cur w w0]
    have "fst (squaring_iteration P D L kl n pi cb ud i y ims cur w) =
        fst (squaring_iteration P D L kl n 0 None 0 i y ims cur w0)"
      by (simp add: squaring_iteration_def fst_steps progress_value_None
          split: sum.splits prod.splits)
    then show ?thesis
      by blast
  next
    case (threw c d e)
    from threw(3) fst_store_checkpoint [of kl i y ims cur w w0]
    have "fst (squaring_iteration P D L kl n pi cb ud i y ims cur w) =
        fst (squaring_iteration P D L kl n 0 None 0 i y ims cur w0) \<or>
      fst (squaring_iteration P D L kl n pi cb ud i y ims cur w) = Inl (Throw e)"
      by (simp add: squaring_iteration_def fst_steps progress_value_None
          split: sum.splits prod.splits)
    with threw(1,2) show ?thesis
      by blast
  qed
qed

lemma squaring_loop_callback:
  "fst (squaring_loop P D L kl n pi cb ud i y ims cur w) =
     fst (squaring_loop P D L kl n 0 None 0 i y ims cur w0) \<or>
   (\<exists>c d e. cb = Some c \<and> invoke P c d ud = Inl e \<and>
      fst (squaring_loop P D L kl n pi cb ud i y ims cur w) = Inl (Throw e))"
proof (induction "unat n - unat i" arbitrary: i y ims cur w w0 rule: less_induct)
  case less
  show ?case
  proof (cases "i < n")
    case False
    then show ?thesis
      by (simp add: squaring_loop.simps [of _ _ _ _ _ _ _ _ i])
  next
    case True
    obtain r w1 where it: "squaring_iteration P D L kl n pi cb ud i y ims cur w = (r, w1)"
      by (cases "squaring_iteration P D L kl n pi cb ud i y ims cur w")
    obtain r' w1' where it': "squaring_iteration P D L kl n 0 None 0 i y ims cur w0 = (r', w1')"
      by (cases "squaring_iteration P D L kl n 0 None 0 i y ims cur w0")
    from squaring_iteration_callback [of P D L kl n pi cb ud i y ims cur w w0] it it'
    consider (same) "r = r'"
      | (threw) c d e where "cb = Some c" "invoke P c d ud = Inl e" "r = Inl (Throw e)"
      by auto
    then show ?thesis
    proof cases
      case same
      show ?thesis
      proof (cases r)
        case (Inl a)
        with same have "r' = Inl a"
          by simp
        with True it it' Inl show ?thesis
          by (simp add: squaring_loop.simps [of _ _ _ _ _ _ _ _ i])
      next
        case (Inr v)
        obtain y' ims' cur' where v: "v = (y', ims', cur')"
          by (cases v)
        with same Inr have r': "r' = Inr (y', ims', cur')"
          by simp
        from True have "unat n - unat (i + 1) < unat n - unat i"
          by (simp add: unat_succ word_less_nat_alt)
        then have "fst (squaring_loop P D L kl n pi cb ud (i + 1) y' ims' cur' w1) =
            fst (squaring_loop P D L kl n 0 None 0 (i + 1) y' ims' cur' w1') \<or>
          (\<exists>c d e. cb = Some c \<and> invoke P c d ud = Inl e \<and>
            fst (squaring_loop P D L kl n pi cb ud (i + 1) y' ims' cur' w1) = Inl (Throw e))"
          by (rule less.hyps)
        with True it it' r' Inr v show ?thesis
          by (simp add: squaring_loop.simps [of _ _ _ _ _ _ _ _ i])
      qed
    next
      case (threw c d e)
      with True it have "fst (squaring_loop P D L kl n pi cb ud i y ims cur w) = Inl (Throw e)"
        by (simp add: squaring_loop.simps [of _ _ _ _ _ _ _ _ i])
      with threw show ?thesis
        by blast
    qed
  qed
qed

lemma squarings_value_callback:
  "squarings_value P D L kl n pi cb ud y = squarings_value P D L kl n 0 None 0 y \<or>
   (\<exists>c d e. cb = Some c \<and> invoke P c d ud = Inl e \<and>
      squarings_value P D L kl n pi cb ud y = Inl (Throw e))"
  unfolding squarings_value_def squarings_def Let_def by (rule squaring_loop_callback)

lemma try_value_callback:
  "try_value P c xb yr chk bits n pi cb ud = try_value P c xb yr chk bits n 0 None 0 \<or>
   (\<exists>c' d e. cb = Some c' \<and> invoke P c' d ud = Inl e \<and>
      try_value P c xb yr chk bits n pi cb ud = Inl (Throw e))"
proof (cases "prepare_value P c xb bits")
  case (Inl a)
  then show ?thesis
    by (simp add: try_value_def)
next
  case (Inr v)
  obtain D L x y d where v: "v = (D, L, x, y, d)"
    by (cases v)
  show ?thesis
  proof (cases "tune_value P n")
    case (Inl a)
    with Inr v show ?thesis
      by (simp add: try_value_def)
  next
    case tv: (Inr u)
    obtain k l kl where u: "u = (k, l, kl)"
      by (cases u)
    from squarings_value_callback [of P D L kl n pi cb ud y] show ?thesis
    proof (elim disjE exE conjE)
      assume "squarings_value P D L kl n pi cb ud y = squarings_value P D L kl n 0 None 0 y"
      with Inr v tv u show ?thesis
        by (simp add: try_value_def)
    next
      fix c' d' e
      assume "cb = Some c'" "invoke P c' d' ud = Inl e"
        "squarings_value P D L kl n pi cb ud y = Inl (Throw e)"
      moreover from this(3) Inr v tv u
      have "try_value P c xb yr chk bits n pi cb ud = Inl (Throw e)"
        by (simp add: try_value_def)
      ultimately show ?thesis
        by blast
    qed
  qed
qed

lemma run_value_callback:
  "run_value P ch xs yr chk bits n pi cb ud = run_value P ch xs yr chk bits n 0 None 0 \<or>
   (\<exists>c d e. cb = Some c \<and> invoke P c d ud = Inl e \<and>
      run_value P ch xs yr chk bits n pi cb ud = Returned (Exception_caught e) empty_result)"
proof (cases "ch = None \<or> ch = Some [] \<or> xs = None \<or> xs = Some [] \<or> n = 0 \<or> bits = 0")
  case True
  then have "run_value P ch xs yr chk bits n pi cb ud = run_value P ch xs yr chk bits n 0 None 0"
    by (auto simp: run_value_def split: option.splits)
  then show ?thesis
    by blast
next
  case False
  then obtain c xb where v: "ch = Some c" "xs = Some xb" "c \<noteq> []" "xb \<noteq> []" "n \<noteq> 0" "bits \<noteq> 0"
    by auto
  then have a: "run_value P ch xs yr chk bits n pi' cb' ud' =
      outcome_of (try_value P c xb yr chk bits n pi' cb' ud')" for pi' cb' ud'
    by (simp add: run_value_def)
  from try_value_callback [of P c xb yr chk bits n pi cb ud] show ?thesis
  proof (elim disjE exE conjE)
    assume "try_value P c xb yr chk bits n pi cb ud = try_value P c xb yr chk bits n 0 None 0"
    then show ?thesis
      by (simp add: a)
  next
    fix c' d e
    assume "cb = Some c'" "invoke P c' d ud = Inl e"
      "try_value P c xb yr chk bits n pi cb ud = Inl (Throw e)"
    moreover from this(3)
    have "run_value P ch xs yr chk bits n pi cb ud = Returned (Exception_caught e) empty_result"
      by (simp add: a)
    ultimately show ?thesis
      by blast
  qed
qed

lemma finish_value_Inr:
  assumes "finish_value P x D d n k l yr chk y ims = Inr res"
    and "finish_value P x D d n k l yr' chk' y ims = Inr res'"
  shows "res = res'"
proof -
  obtain w1 where a: "finish P x D d n k l yr chk y ims (initial_state, []) = (Inr res, w1)"
    using assms(1) by (cases "finish P x D d n k l yr chk y ims (initial_state, [])")
      (simp add: finish_value_def)
  obtain w2 where b: "finish P x D d n k l yr' chk' y ims (initial_state, []) = (Inr res', w2)"
    using assms(2) by (cases "finish P x D d n k l yr' chk' y ims (initial_state, [])")
      (simp add: finish_value_def)
  from finish_Inr [OF a] finish_Inr [OF b] show ?thesis
    by auto
qed

lemma try_value_Inr:
  assumes "try_value P c xb yr chk bits n pi cb ud = Inr res"
    and "try_value P c xb yr' chk' bits n pi cb ud = Inr res'"
  shows "res = res'"
  using assms
  by (auto simp: try_value_def split: sum.splits prod.splits dest: finish_value_Inr)

lemma run_value_buffer:
  assumes "run_value P ch xs yr chk bits n pi cb ud = Returned p res" and "res \<noteq> empty_result"
  shows "\<exists>c xb. ch = Some c \<and> xs = Some xb \<and> try_value P c xb yr chk bits n 0 None 0 = Inr res"
proof -
  from run_value_callback [of P ch xs yr chk bits n pi cb ud] assms
  have plain: "run_value P ch xs yr chk bits n 0 None 0 = Returned p res"
    by auto
  show ?thesis
  proof (cases "ch = None \<or> ch = Some [] \<or> xs = None \<or> xs = Some [] \<or> n = 0 \<or> bits = 0")
    case True
    with plain assms(2) show ?thesis
      by (auto simp: run_value_def split: option.splits if_splits)
  next
    case False
    then obtain c xb where v: "ch = Some c" "xs = Some xb" "c \<noteq> []" "xb \<noteq> []" "n \<noteq> 0"
      "bits \<noteq> 0"
      by auto
    obtain r w' where tb: "try_block P 0 c xb yr chk bits n 0 None 0 (initial_state, []) = (r, w')"
      by (cases "try_block P 0 c xb yr chk bits n 0 None 0 (initial_state, [])")
    from fst_try_block [of P 0 c xb yr chk bits n 0 None 0 "(initial_state, [])"] tb
    have r: "try_value P c xb yr chk bits n 0 None 0 = r"
      by simp
    with v plain have "outcome_of r = Returned p res"
      by (simp add: run_value_def)
    with tb have "r = Inr res \<and> p = Proof_done"
      using assms(2) by (rule outcome_of_nonempty)
    with r v show ?thesis
      by simp
  qed
qed

section \<open>The claims\<close>

text \<open>
  C5. With a null or zero-length challenge, a null or zero-length input element, an
  iteration count of zero or a discriminant size of zero, the operation returns the empty
  result (null data, length zero) at once: it makes no call into the library, so no
  discriminant is derived, nothing is deserialized and nothing is squared, and the state
  of the process is left as it was.
\<close>

theorem invalid_input_rejected:
  assumes "challenge_hash = None \<or> challenge_hash = Some [] \<or> x_s = None \<or> x_s = Some [] \<or>
    num_iterations = 0 \<or> discriminant_size_bits = 0"
  shows "(\<exists>p. prove_one_weso_slow P t challenge_hash x_s y_ref_s check_y_ref
            discriminant_size_bits num_iterations progress_interval progress_cb
            progress_user_data s =
          \<lparr>returned = Returned p empty_result, events = [], after = s\<rparr>) \<and>
         data empty_result = None \<and> length' empty_result = 0"
  using assms
  by (auto simp: prove_one_weso_slow_def empty_result_def split: option.splits)

theorem invalid_input_rejected_witness:
  "(\<exists>p. prove_one_weso_slow (toy_prims (2, 1)) 0 (Some [1]) (Some [2]) None False 8 0 2
          (Some (Callback 7)) 9 initial_state =
        \<lparr>returned = Returned p empty_result, events = [], after = initial_state\<rparr>) \<and>
   (\<exists>p. prove_one_weso_slow (toy_prims (2, 1)) 0 None (Some [2]) None False 8 5 2
          (Some (Callback 7)) 9 initial_state =
        \<lparr>returned = Returned p empty_result, events = [], after = initial_state\<rparr>) \<and>
   (\<exists>p. prove_one_weso_slow (toy_prims (2, 1)) 0 (Some [1]) (Some []) None False 8 5 2
          (Some (Callback 7)) 9 initial_state =
        \<lparr>returned = Returned p empty_result, events = [], after = initial_state\<rparr>) \<and>
   (\<exists>p. prove_one_weso_slow (toy_prims (2, 1)) 0 (Some [1]) (Some [2]) None False 0 5 2
          (Some (Callback 7)) 9 initial_state =
        \<lparr>returned = Returned p empty_result, events = [], after = initial_state\<rparr>)"
  using invalid_input_rejected [of "Some [1]" "Some [2]" 0 8 "toy_prims (2, 1)" 0 None False 2
      "Some (Callback 7)" 9 initial_state]
    invalid_input_rejected [of None "Some [2]" 5 8 "toy_prims (2, 1)" 0 None False 2
      "Some (Callback 7)" 9 initial_state]
    invalid_input_rejected [of "Some [1]" "Some []" 5 8 "toy_prims (2, 1)" 0 None False 2
      "Some (Callback 7)" 9 initial_state]
    invalid_input_rejected [of "Some [1]" "Some [2]" 5 0 "toy_prims (2, 1)" 0 None False 2
      "Some (Callback 7)" 9 initial_state]
  by simp

text \<open>
  C7. Whenever a call into the library made during the operation throws (the derivation
  of the discriminant, the root, the deserialization, a squaring, a reduction, the
  construction of the proof, a serialization), or a call of the progress callback does,
  the operation returns the empty result through its \<^verbatim>\<open>catch (...)\<close>, and the throwing
  call is the last thing it did. The operation has no way of ending in an exception: its
  outcome is a returned byte array, or undefined behaviour when the arithmetic of lines
  104 or 121 leaves its range.
\<close>

theorem exceptions_are_caught:
  assumes "ev \<in> set (events (prove_one_weso_slow P t ch xs yr chk bits n pi cb ud s))"
    and "thrown_by P ev = Some e"
  shows "returned (prove_one_weso_slow P t ch xs yr chk bits n pi cb ud s) =
           Returned (Exception_caught e) empty_result \<and>
         last (events (prove_one_weso_slow P t ch xs yr chk bits n pi cb ud s)) = ev"
proof (cases rule: prove_one_weso_slow_cases [of P t ch xs yr chk bits n pi cb ud s])
  case (rejected p)
  with assms(1) show ?thesis
    by simp
next
  case (ran c xb r w')
  from ran(8) assms(1) have ev: "ev \<in> set (snd w')"
    by simp
  have "exn_shape P r (snd w')"
    using ran(7) by (rule try_block_exn_shape) (simp add: quiet_Nil)
  moreover have "\<not> quiet P (snd w')"
    using ev assms(2) by (auto simp: quiet_def)
  ultimately obtain e' where r: "r = Inl (Throw e')" and ne: "snd w' \<noteq> []"
    and l: "thrown_by P (last (snd w')) = Some e'" and b: "quiet P (butlast (snd w'))"
    by (rule exn_shape_loud)
  from ne ev have "ev \<in> set (butlast (snd w')) \<or> ev = last (snd w')"
    by (rule in_butlast_or_last)
  with b assms(2) have "ev = last (snd w')"
    by (auto simp: quiet_def)
  with l assms(2) r ran(8) show ?thesis
    by simp
qed

lemma toy_throwing_run:
  "returned (prove_one_weso_slow toy_throwing 0 (Some [1]) (Some [2]) None False 8 5 2
     (Some (Callback 7)) 9 initial_state) =
     Returned (Exception_caught (Exn ''reduce'')) empty_result"
  "events (prove_one_weso_slow toy_throwing 0 (Some [1]) (Some [2]) None False 8 5 2
     (Some (Callback 7)) 9 initial_state) =
     [Init_chiavdf_runtime, CreateDiscriminant_call [1] 8, Root_call 251,
      DeserializeForm_call (- 251) [2], From_abd_call 2 0 (- 251),
      ApproximateParameters_call 5, Nudupl_form_call 2 (- 251) 3, Reduce_call 4,
      Nudupl_form_call 4 (- 251) 3, Reduce_call 16]"
  by (simp_all add: toy_throwing_def run_defs squaring_loop.simps)

theorem exceptions_are_caught_witness:
  "returned (prove_one_weso_slow toy_throwing 0 (Some [1]) (Some [2]) None False 8 5 2
     (Some (Callback 7)) 9 initial_state) =
     Returned (Exception_caught (Exn ''reduce'')) empty_result \<and>
   last (events (prove_one_weso_slow toy_throwing 0 (Some [1]) (Some [2]) None False 8 5 2
     (Some (Callback 7)) 9 initial_state)) = Reduce_call 16"
  using exceptions_are_caught [of "Reduce_call 16" toy_throwing 0 "Some [1]" "Some [2]" None
      False 8 5 2 "Some (Callback 7)" 9 initial_state "Exn ''reduce''"]
  by (simp add: toy_throwing_run)

text \<open>
  C10. The four streaming entry points call the operation with the check against the
  reference switched on. Given a null or zero-length reference they never return anything
  but the empty result, whatever \<open>y\<close> and the proof are: the check of line 153 comes
  before the output buffer is built. When the arithmetic of lines 104 and 115 stays in
  range the call does return, and returns the empty result.
\<close>

theorem streaming_needs_reference:
  assumes "y_ref_s = None \<or> y_ref_s = Some []"
  shows "\<forall>run \<in> {chiavdf_prove_one_weso_fast_streaming P t ch xs y_ref_s bits n s,
            chiavdf_prove_one_weso_fast_streaming_with_progress P t ch xs y_ref_s bits n pi
              cb ud s,
            chiavdf_prove_one_weso_fast_streaming_getblock_opt P t ch xs y_ref_s bits n s,
            chiavdf_prove_one_weso_fast_streaming_getblock_opt_with_progress P t ch xs y_ref_s
              bits n pi cb ud s}.
           (\<forall>p res. returned run = Returned p res \<longrightarrow> res = empty_result) \<and>
           (fits P n \<longrightarrow> (\<exists>p. returned run = Returned p empty_result))"
proof -
  let ?Q = "\<lambda>run :: 'a run. (\<forall>p res. returned run = Returned p res \<longrightarrow> res = empty_result) \<and>
           (fits P n \<longrightarrow> (\<exists>p. returned run = Returned p empty_result))"
  have core: "?Q (prove_one_weso_slow P t ch xs y_ref_s True bits n pi' cb' ud' s)"
    for pi' cb' ud'
  proof -
    let ?run = "prove_one_weso_slow P t ch xs y_ref_s True bits n pi' cb' ud' s"
    have a: "res = empty_result" if ret: "returned ?run = Returned p res" for p res
    proof (cases rule: prove_one_weso_slow_cases [of P t ch xs y_ref_s True bits n pi' cb' ud' s])
      case (rejected p')
      with ret show ?thesis by simp
    next
      case (ran c xb r w')
      show ?thesis
      proof (rule ccontr)
        assume ne: "res \<noteq> empty_result"
        from ran(8) ret have "outcome_of r = Returned p res"
          by simp
        with ran(7) have "r = Inr res \<and> p = Proof_done"
          using ne by (rule outcome_of_nonempty)
        with ran(7) have "try_block P t c xb y_ref_s True bits n pi' cb' ud' (s, []) = (Inr res, w')"
          by simp
        then obtain ys where "True \<longrightarrow> y_ref_s = Some ys" "ys \<noteq> []"
          by (rule try_block_success)
        with assms show False
          by simp
      qed
    qed
    have "\<exists>p. returned ?run = Returned p empty_result" if "fits P n"
    proof (cases "returned ?run")
      case (Returned p res)
      with a [of p res] show ?thesis by simp
    next
      case Undefined_behaviour
      with defined_behaviour [OF that, of t ch xs y_ref_s True bits pi' cb' ud' s]
      show ?thesis by simp
    qed
    with a show ?thesis
      by blast
  qed
  have c1: "?Q (prove_one_weso_slow P t ch xs y_ref_s True bits n 0 None 0 s)"
    by (rule core)
  have c2: "?Q (prove_one_weso_slow P t ch xs y_ref_s True bits n pi cb ud s)"
    by (rule core)
  show ?thesis
    unfolding chiavdf_prove_one_weso_fast_streaming_def
      chiavdf_prove_one_weso_fast_streaming_with_progress_def
      chiavdf_prove_one_weso_fast_streaming_getblock_opt_def
      chiavdf_prove_one_weso_fast_streaming_getblock_opt_with_progress_def
    using c1 c2 by blast
qed

lemma toy_streaming_run:
  "returned (chiavdf_prove_one_weso_fast_streaming (toy_prims (2, 1)) 0 (Some [1]) (Some [2])
     (Some []) 8 5 initial_state) = Returned Reference_missing empty_result"
  "returned (chiavdf_prove_one_weso_fast_streaming_getblock_opt_with_progress (toy_prims (2, 1))
     0 (Some [1]) (Some [2]) None 8 5 2 (Some (Callback 7)) 9 initial_state) =
     Returned Reference_missing empty_result"
  "returned (chiavdf_prove_one_weso_fast_streaming (toy_prims (2, 1)) 0 (Some [1]) (Some [2])
     (Some [123]) 8 5 initial_state) =
     Returned Proof_done \<lparr>data = Some [123, 44], length' = 2\<rparr>"
  by code_simp+

lemma toy_fits: "fits (toy_prims (2, 1)) 5"
  by (simp add: fits_def plan_k_def plan_l_def plan_kl_def select_parameters_def toy_prims_def)

theorem streaming_needs_reference_witness:
  "returned (chiavdf_prove_one_weso_fast_streaming (toy_prims (2, 1)) 0 (Some [1]) (Some [2])
     (Some []) 8 5 initial_state) = Returned Reference_missing empty_result \<and>
   returned (chiavdf_prove_one_weso_fast_streaming_getblock_opt_with_progress (toy_prims (2, 1))
     0 (Some [1]) (Some [2]) None 8 5 2 (Some (Callback 7)) 9 initial_state) =
     Returned Reference_missing empty_result \<and>
   fits (toy_prims (2, 1)) 5"
  using streaming_needs_reference [of "Some []" "toy_prims (2, 1)" 0 "Some [1]" "Some [2]" 8 5
      initial_state 2 "Some (Callback 7)" 9]
    streaming_needs_reference [of None "toy_prims (2, 1)" 0 "Some [1]" "Some [2]" 8 5
      initial_state 2 "Some (Callback 7)" 9]
  by (simp add: toy_streaming_run toy_fits)

text \<open>
  C6. A call that returns a buffer other than the empty result has derived a discriminant
  \<open>D\<close>, built a proof for some \<open>y\<close>, and returns the serialization of \<open>y\<close> followed by the
  serialization of the proof, both made with the bit size of \<open>D\<close> and both non-empty; the
  length it returns is the sum of the two lengths. A call in which a serialization comes
  back empty returns the empty result.
\<close>

theorem output_is_y_then_proof:
  "(returned (prove_one_weso_slow P t ch xs yr chk bits n pi cb ud s) = Returned p res \<and>
    res \<noteq> empty_result \<longrightarrow>
      p = Proof_done \<and>
      (\<exists>c D y x ims wproof ys ps.
         ch = Some c \<and> CreateDiscriminant P c (ucast bits) = Inr D \<and>
         GenerateWesolowski_call y x D ims n (scast (plan_k P n)) (scast (plan_l P n))
           \<in> set (events (prove_one_weso_slow P t ch xs yr chk bits n pi cb ud s)) \<and>
         GenerateWesolowski P y x D ims n (scast (plan_k P n)) (scast (plan_l P n)) =
           Inr wproof \<and>
         SerializeForm P y (num_bits P D) = Inr ys \<and>
         SerializeForm P wproof (num_bits P D) = Inr ps \<and> ys \<noteq> [] \<and> ps \<noteq> [] \<and>
         res = \<lparr>data = Some (ys @ ps), length' = length ys + length ps\<rparr>)) \<and>
   (SerializeForm_call f d \<in> set (events (prove_one_weso_slow P t ch xs yr chk bits n pi cb ud s)) \<and>
    SerializeForm P f d = Inr [] \<longrightarrow>
      (\<exists>q. returned (prove_one_weso_slow P t ch xs yr chk bits n pi cb ud s) =
         Returned q empty_result))"
proof (cases rule: prove_one_weso_slow_cases [of P t ch xs yr chk bits n pi cb ud s])
  case (rejected p')
  then show ?thesis by simp
next
  case (ran c xb r w')
  let ?run = "prove_one_weso_slow P t ch xs yr chk bits n pi cb ud s"
  have first: "p = Proof_done \<and>
      (\<exists>c D y x ims wproof ys ps.
         ch = Some c \<and> CreateDiscriminant P c (ucast bits) = Inr D \<and>
         GenerateWesolowski_call y x D ims n (scast (plan_k P n)) (scast (plan_l P n))
           \<in> set (events ?run) \<and>
         GenerateWesolowski P y x D ims n (scast (plan_k P n)) (scast (plan_l P n)) =
           Inr wproof \<and>
         SerializeForm P y (num_bits P D) = Inr ys \<and>
         SerializeForm P wproof (num_bits P D) = Inr ps \<and> ys \<noteq> [] \<and> ps \<noteq> [] \<and>
         res = \<lparr>data = Some (ys @ ps), length' = length ys + length ps\<rparr>)"
    if "returned ?run = Returned p res" "res \<noteq> empty_result"
  proof -
    from ran(8) that(1) have "outcome_of r = Returned p res"
      by simp
    with ran(7) have "r = Inr res \<and> p = Proof_done"
      using that(2) by (rule outcome_of_nonempty)
    then have r: "r = Inr res" and p: "p = Proof_done"
      by simp_all
    from ran(7) [unfolded r] obtain D x y ims wproof ys ps where
      "CreateDiscriminant P c (ucast bits) = Inr D"
      "GenerateWesolowski_call y x D ims n (scast (plan_k P n)) (scast (plan_l P n))
         \<in> set (snd w')"
      "GenerateWesolowski P y x D ims n (scast (plan_k P n)) (scast (plan_l P n)) = Inr wproof"
      "SerializeForm P y (num_bits P D) = Inr ys"
      "SerializeForm P wproof (num_bits P D) = Inr ps" "ys \<noteq> []" "ps \<noteq> []"
      "res = \<lparr>data = Some (ys @ ps), length' = length ys + length ps\<rparr>"
      by (rule try_block_success)
    with ran(1,8) have "\<exists>c D y x ims wproof ys ps.
         ch = Some c \<and> CreateDiscriminant P c (ucast bits) = Inr D \<and>
         GenerateWesolowski_call y x D ims n (scast (plan_k P n)) (scast (plan_l P n))
           \<in> set (events ?run) \<and>
         GenerateWesolowski P y x D ims n (scast (plan_k P n)) (scast (plan_l P n)) =
           Inr wproof \<and>
         SerializeForm P y (num_bits P D) = Inr ys \<and>
         SerializeForm P wproof (num_bits P D) = Inr ps \<and> ys \<noteq> [] \<and> ps \<noteq> [] \<and>
         res = \<lparr>data = Some (ys @ ps), length' = length ys + length ps\<rparr>"
      by (intro exI [of _ c] exI [of _ D] exI [of _ y] exI [of _ x] exI [of _ ims]
          exI [of _ wproof] exI [of _ ys] exI [of _ ps]) simp
    with p show ?thesis
      by simp
  qed
  have second: "\<exists>q. returned ?run = Returned q empty_result"
    if ev: "SerializeForm_call f d \<in> set (events ?run)" and em: "SerializeForm P f d = Inr []"
  proof -
    from ev ran(8) have ev': "SerializeForm_call f d \<in> set (snd w')"
      by simp
    have st: "3 \<le> stage (SerializeForm_call f d :: 'a event)"
      by simp
    have "\<exists>q. outcome_of r = Returned q empty_result"
      using ran(7) ev' st
    proof (cases rule: try_block_reached_finish)
      case (finish D L x y d' w1 w2 yT ims w3)
      from finish(5) have old: "SerializeForm_call f d \<notin> set (snd w3)"
        by fastforce
      from finish(4) show ?thesis
      proof (cases rule: finish_cases)
        case (proof_throws e)
        then show ?thesis by simp
      next
        case (y_throws wproof e)
        then show ?thesis by simp
      next
        case (wproof_throws wproof ys e)
        then show ?thesis by simp
      next
        case (serialized wproof ys ps)
        from conclude_world [OF serialized(4)] ev' old
        have "f = yT \<and> d = d' \<or> f = wproof \<and> d = d'"
          by auto
        with serialized(2,3) em have "ys = [] \<or> ps = []"
          by auto
        with serialized(4) show ?thesis
          by (cases rule: conclude_cases) simp_all
      qed
    qed
    with ran(8) show ?thesis
      by simp
  qed
  from first second show ?thesis
    by blast
qed

lemma toy_plain_run:
  "returned (prove_one_weso_slow (toy_prims (2, 1)) 0 (Some [1]) (Some [2]) None False 8 5 2
     (Some (Callback 7)) 9 initial_state) =
     Returned Proof_done \<lparr>data = Some [123, 44], length' = 2\<rparr>"
  "events (prove_one_weso_slow (toy_prims (2, 1)) 0 (Some [1]) (Some [2]) None False 8 5 2
     (Some (Callback 7)) 9 initial_state) =
     [Init_chiavdf_runtime, CreateDiscriminant_call [1] 8, Root_call 251,
      DeserializeForm_call (- 251) [2], From_abd_call 2 0 (- 251),
      ApproximateParameters_call 5, Nudupl_form_call 2 (- 251) 3, Reduce_call 4,
      Nudupl_form_call 4 (- 251) 3, Reduce_call 16, Progress_call (Callback 7) 2 9,
      Nudupl_form_call 16 (- 251) 3, Reduce_call 256, Nudupl_form_call 5 (- 251) 3,
      Reduce_call 25, Progress_call (Callback 7) 4 9, Nudupl_form_call 25 (- 251) 3,
      Reduce_call 625, Progress_call (Callback 7) 5 9,
      GenerateWesolowski_call 123 2 (- 251) [2, 16, 25] 5 1 2, SerializeForm_call 123 8,
      SerializeForm_call 44 8]"
  by code_simp+

lemma toy_mute_run:
  "returned (prove_one_weso_slow toy_mute 0 (Some [1]) (Some [2]) None False 8 5 2
     (Some (Callback 7)) 9 initial_state) = Returned Encoding_fault empty_result"
  "SerializeForm_call 123 8 \<in> set (events (prove_one_weso_slow toy_mute 0 (Some [1]) (Some [2])
     None False 8 5 2 (Some (Callback 7)) 9 initial_state))"
  by code_simp+

theorem output_is_y_then_proof_witness:
  "returned (prove_one_weso_slow (toy_prims (2, 1)) 0 (Some [1]) (Some [2]) None False 8 5 2
     (Some (Callback 7)) 9 initial_state) =
     Returned Proof_done \<lparr>data = Some ([123] @ [44]), length' = 2\<rparr> \<and>
   SerializeForm (toy_prims (2, 1)) 123 8 = Inr [123] \<and>
   SerializeForm (toy_prims (2, 1)) 44 8 = Inr [44] \<and>
   SerializeForm toy_mute 123 8 = Inr [] \<and>
   returned (prove_one_weso_slow toy_mute 0 (Some [1]) (Some [2]) None False 8 5 2
     (Some (Callback 7)) 9 initial_state) = Returned Encoding_fault empty_result"
  using output_is_y_then_proof [of "toy_prims (2, 1)" 0 "Some [1]" "Some [2]" None False 8 5 2
      "Some (Callback 7)" 9 initial_state Proof_done "\<lparr>data = Some [123, 44], length' = 2\<rparr>"
      123 8]
    output_is_y_then_proof [of toy_mute 0 "Some [1]" "Some [2]" None False 8 5 2
      "Some (Callback 7)" 9 initial_state Proof_done empty_result 123 8]
  by (simp add: toy_plain_run toy_mute_run) (simp add: toy_prims_def toy_mute_def)

text \<open>
  C2. A successful call hands a checkpoint sequence to the proof generator, with the plan
  \<open>(k, l)\<close> and the iteration count \<open>T\<close> of the call. Whenever the generator is called, the
  sequence it gets has exactly \<open>T\<close> over \<open>k * l\<close> entries, rounded up; entry 0 is the element
  the loop starts from, built by \<^verbatim>\<open>form::from_abd\<close> from the members \<^verbatim>\<open>a\<close> and \<^verbatim>\<open>b\<close> of
  the deserialized input and the discriminant; every entry \<open>i\<close> is that element squared
  \<open>i * k * l\<close> times, reduced after each squaring; and the \<open>y\<close> it gets is that element
  squared \<open>T\<close> times in the same way.
\<close>

theorem checkpoint_sequence:
  "(returned (prove_one_weso_slow P t ch xs yr chk bits n pi cb ud s) = Returned Proof_done res \<longrightarrow>
      (\<exists>y x D ims. GenerateWesolowski_call y x D ims n (scast (plan_k P n)) (scast (plan_l P n))
         \<in> set (events (prove_one_weso_slow P t ch xs yr chk bits n pi cb ud s)))) \<and>
   (GenerateWesolowski_call y x D ims n' k' l'
      \<in> set (events (prove_one_weso_slow P t ch xs yr chk bits n pi cb ud s)) \<longrightarrow>
      n' = n \<and> k' = scast (plan_k P n) \<and> l' = scast (plan_l P n) \<and>
      (\<exists>xb L y0. xs = Some xb \<and> DeserializeForm P D xb = Inr x \<and> root P (- D) 4 = Inr L \<and>
         from_abd P (form_a P x) (form_b P x) D = Inr y0 \<and>
         length ims = ceil_div (unat n) (plan_kl P n) \<and> ims ! 0 = y0 \<and>
         (\<forall>i<length ims. square_n P D L (i * plan_kl P n) y0 = Inr (ims ! i)) \<and>
         square_n P D L (unat n) y0 = Inr y))"
proof (rule conjI; rule impI)
  let ?run = "prove_one_weso_slow P t ch xs yr chk bits n pi cb ud s"
  assume ok: "returned ?run = Returned Proof_done res"
  show "\<exists>y x D ims. GenerateWesolowski_call y x D ims n (scast (plan_k P n)) (scast (plan_l P n))
         \<in> set (events ?run)"
  proof (cases rule: prove_one_weso_slow_cases [of P t ch xs yr chk bits n pi cb ud s])
    case (rejected p)
    with ok show ?thesis
      by auto
  next
    case (ran c xb r w')
    from ran(8) ok have o: "outcome_of r = Returned Proof_done res"
      by simp
    have "\<exists>v. r = Inr v"
    proof (cases r)
      case (Inl a)
      show ?thesis
      proof (cases a)
        case (Return p' res')
        with Inl ran(7) have "p' \<noteq> Proof_done"
          by (auto dest: try_block_Return)
        with Inl Return o show ?thesis by simp
      qed (use Inl o in simp_all)
    qed simp
    then obtain v where "try_block P t c xb yr chk bits n pi cb ud (s, []) = (Inr v, w')"
      using ran(7) by auto
    then obtain y x D ims where
      "GenerateWesolowski_call y x D ims n (scast (plan_k P n)) (scast (plan_l P n))
         \<in> set (snd w')"
      by (rule try_block_success)
    with ran(8) show ?thesis
      by auto
  qed
next
  let ?run = "prove_one_weso_slow P t ch xs yr chk bits n pi cb ud s"
  let ?ev = "GenerateWesolowski_call y x D ims n' k' l'"
  assume ev: "?ev \<in> set (events ?run)"
  have st: "3 \<le> stage ?ev"
    by simp
  from ev st show "n' = n \<and> k' = scast (plan_k P n) \<and> l' = scast (plan_l P n) \<and>
      (\<exists>xb L y0. xs = Some xb \<and> DeserializeForm P D xb = Inr x \<and> root P (- D) 4 = Inr L \<and>
         from_abd P (form_a P x) (form_b P x) D = Inr y0 \<and>
         length ims = ceil_div (unat n) (plan_kl P n) \<and> ims ! 0 = y0 \<and>
         (\<forall>i<length ims. square_n P D L (i * plan_kl P n) y0 = Inr (ims ! i)) \<and>
         square_n P D L (unat n) y0 = Inr y)"
  proof (cases rule: reached_proof_cases)
    case (generated c xb r w' D' L x' y0 w1 w2 yT ims' w3 new)
    from ev generated(4) have "?ev \<in> set (snd w')"
      by simp
    with generated(9,10,11) have "?ev =
        GenerateWesolowski_call yT x' D' ims' n (scast (plan_k P n)) (scast (plan_l P n))"
      by fastforce
    then have eq: "y = yT" "x = x'" "D = D'" "ims = ims'" "n' = n" "k' = scast (plan_k P n)"
      "l' = scast (plan_l P n)"
      by simp_all
    from prepare_Inr [OF generated(5)] have pre: "DeserializeForm P D' xb = Inr x'"
      "root P (- D') 4 = Inr L" "from_abd P (form_a P x') (form_b P x') D' = Inr y0"
      by simp_all
    from reached_proof_product [OF generated(6)]
    have pos: "0 < sint (plan_k P n * plan_l P n)"
      and kl: "nat (sint (plan_k P n * plan_l P n)) = plan_kl P n"
      by simp_all
    from squarings_checkpoints [OF generated(7) pos]
    have yT: "square_n P D' L (unat n) y0 = Inr yT"
      and len: "length ims' = ceil_div (unat n) (plan_kl P n)"
      and cps: "\<forall>j<length ims'. square_n P D' L (j * plan_kl P n) y0 = Inr (ims' ! j)"
      by (simp_all add: kl)
    from generated(3) have "0 < unat n"
      by (simp add: unat_gt_0)
    then have "0 < length ims'"
      using len plan_kl_pos [of P n] by (simp add: ceil_div_pos)
    with cps have "square_n P D' L (0 * plan_kl P n) y0 = Inr (ims' ! 0)"
      by blast
    then have first: "ims' ! 0 = y0"
      by simp
    from generated(2) pre yT len cps first have "\<exists>xb L y0. xs = Some xb \<and>
         DeserializeForm P D' xb = Inr x' \<and> root P (- D') 4 = Inr L \<and>
         from_abd P (form_a P x') (form_b P x') D' = Inr y0 \<and>
         length ims' = ceil_div (unat n) (plan_kl P n) \<and> ims' ! 0 = y0 \<and>
         (\<forall>i<length ims'. square_n P D' L (i * plan_kl P n) y0 = Inr (ims' ! i)) \<and>
         square_n P D' L (unat n) y0 = Inr yT"
      by (intro exI [of _ xb] exI [of _ L] exI [of _ y0]) simp
    with eq show ?thesis
      by simp
  qed
qed

lemma toy_squares:
  "square_n (toy_prims (2, 1)) (- 251) 3 0 2 = Inr 2"
  "square_n (toy_prims (2, 1)) (- 251) 3 2 2 = Inr 16"
  "square_n (toy_prims (2, 1)) (- 251) 3 4 2 = Inr 25"
  "square_n (toy_prims (2, 1)) (- 251) 3 5 2 = Inr 123"
  by code_simp+

theorem checkpoint_sequence_witness:
  "returned (prove_one_weso_slow (toy_prims (2, 1)) 0 (Some [1]) (Some [2]) None False 8 5 2
     (Some (Callback 7)) 9 initial_state) =
     Returned Proof_done \<lparr>data = Some [123, 44], length' = 2\<rparr> \<and>
   GenerateWesolowski_call 123 2 (- 251) [2, 16, 25] 5 1 2
     \<in> set (events (prove_one_weso_slow (toy_prims (2, 1)) 0 (Some [1]) (Some [2]) None False
         8 5 2 (Some (Callback 7)) 9 initial_state)) \<and>
   length [2, 16, 25 :: int] = ceil_div 5 2 \<and>
   square_n (toy_prims (2, 1)) (- 251) 3 (0 * 2) 2 = Inr ([2, 16, 25] ! 0) \<and>
   square_n (toy_prims (2, 1)) (- 251) 3 (1 * 2) 2 = Inr ([2, 16, 25] ! 1) \<and>
   square_n (toy_prims (2, 1)) (- 251) 3 (2 * 2) 2 = Inr ([2, 16, 25] ! 2) \<and>
   square_n (toy_prims (2, 1)) (- 251) 3 5 2 = Inr 123"
  using checkpoint_sequence [of "toy_prims (2, 1)" 0 "Some [1]" "Some [2]" None False 8 5 2
      "Some (Callback 7)" 9 initial_state "\<lparr>data = Some [123, 44], length' = 2\<rparr>"
      123 2 "- 251" "[2, 16, 25]" 5 1 2]
  by (simp add: toy_plain_run toy_squares ceil_div_def)

text \<open>
  C1, as the specification states it, fails: the comparison with the reference is made
  after the proof has been generated and serialized, not before. With the small library,
  five squarings of the form 2 give 123; a streaming call with the reference \<open>[7]\<close>, of
  the right length and the wrong content, calls the proof generator and both
  serializations and only then compares, and returns the empty result.
\<close>

theorem comparison_order_counterexample:
  "events (chiavdf_prove_one_weso_fast_streaming (toy_prims (2, 1)) 0 (Some [1]) (Some [2])
     (Some [7]) 8 5 initial_state) =
     [Init_chiavdf_runtime, CreateDiscriminant_call [1] 8, Root_call 251,
      DeserializeForm_call (- 251) [2], From_abd_call 2 0 (- 251),
      ApproximateParameters_call 5, Nudupl_form_call 2 (- 251) 3, Reduce_call 4,
      Nudupl_form_call 4 (- 251) 3, Reduce_call 16, Nudupl_form_call 16 (- 251) 3,
      Reduce_call 256, Nudupl_form_call 5 (- 251) 3, Reduce_call 25,
      Nudupl_form_call 25 (- 251) 3, Reduce_call 625,
      GenerateWesolowski_call 123 2 (- 251) [2, 16, 25] 5 1 2, SerializeForm_call 123 8,
      SerializeForm_call 44 8, Validate_y_ref] \<and>
   returned (chiavdf_prove_one_weso_fast_streaming (toy_prims (2, 1)) 0 (Some [1]) (Some [2])
     (Some [7]) 8 5 initial_state) = Returned Reference_content_mismatch empty_result \<and>
   \<not> compared_before_proof (events (chiavdf_prove_one_weso_fast_streaming (toy_prims (2, 1)) 0
     (Some [1]) (Some [2]) (Some [7]) 8 5 initial_state))"
  by code_simp

text \<open>
  C1, amended. When the comparison with the reference is made, the check is switched on
  and everything else has been done: the events of the call are those of the preparation,
  the tuning and exactly \<open>T\<close> squarings, then the generation of the proof, the two
  serializations, both non-empty, and the comparison last. If the reference is the
  serialization of \<open>y\<close>, the call returns \<open>y\<close> and the proof; if it is missing or differs
  in length or content, the call returns the empty result with the matching exit, and the
  proof that was generated is dropped.
\<close>

theorem comparison_after_proof:
  assumes "Validate_y_ref \<in> set (events (prove_one_weso_slow P t ch xs yr chk bits n pi cb ud s))"
  shows "chk \<and>
    (\<exists>before y x D ims wproof d ys ps.
       events (prove_one_weso_slow P t ch xs yr chk bits n pi cb ud s) =
         before @ [GenerateWesolowski_call y x D ims n (scast (plan_k P n)) (scast (plan_l P n)),
           SerializeForm_call y d, SerializeForm_call wproof d, Validate_y_ref] \<and>
       (\<forall>ev\<in>set before. stage ev \<le> 2) \<and> length (filter is_squaring before) = unat n \<and>
       GenerateWesolowski P y x D ims n (scast (plan_k P n)) (scast (plan_l P n)) = Inr wproof \<and>
       SerializeForm P y d = Inr ys \<and> SerializeForm P wproof d = Inr ps \<and>
       ys \<noteq> [] \<and> ps \<noteq> [] \<and>
       returned (prove_one_weso_slow P t ch xs yr chk bits n pi cb ud s) =
         (case reference_exit yr ys of
            None \<Rightarrow> Returned Proof_done
              \<lparr>data = Some (ys @ ps), length' = length ys + length ps\<rparr>
          | Some p \<Rightarrow> Returned p empty_result))"
proof -
  let ?run = "prove_one_weso_slow P t ch xs yr chk bits n pi cb ud s"
  have st: "3 \<le> stage (Validate_y_ref :: 'a event)"
    by simp
  from assms st show ?thesis
  proof (cases rule: reached_proof_cases)
    case (generated c xb r w' D L x y0 w1 w2 yT ims w3 new)
    let ?gw = "GenerateWesolowski_call yT x D ims n (scast (plan_k P n)) (scast (plan_l P n))"
    from generated(9) have old: "Validate_y_ref \<notin> set (snd w3)"
      by fastforce
    from assms generated(4) have v: "Validate_y_ref \<in> set (snd w')"
      by simp
    from generated(7) have "squaring_loop P D L (scast (plan_k P n * plan_l P n)) n pi cb ud
        0 y0 (replicate (unat ((n + scast (plan_k P n * plan_l P n) - 1) div
          scast (plan_k P n * plan_l P n))) (form_default P)) 0 w2 = (Inr (yT, ims), w3)"
      by (simp add: squarings_def Let_def)
    from squaring_loop_count [OF this] before_proof_events [OF generated(5,6)]
    have count: "length (filter is_squaring (snd w3)) = unat n"
      by simp
    from generated(8) show ?thesis
    proof (cases rule: finish_cases)
      case (proof_throws e)
      with v old show ?thesis by simp
    next
      case (y_throws wproof e)
      with v old show ?thesis by simp
    next
      case (wproof_throws wproof ys e)
      with v old show ?thesis by simp
    next
      case (serialized wproof ys ps)
      let ?d = "num_bits P D"
      from serialized(4) have "chk \<and> ys \<noteq> [] \<and> ps \<noteq> [] \<and>
          snd w' = snd w3 @ [?gw, SerializeForm_call yT ?d, SerializeForm_call wproof ?d,
            Validate_y_ref] \<and>
          outcome_of r = (case reference_exit yr ys of
            None \<Rightarrow> Returned Proof_done
              \<lparr>data = Some (ys @ ps), length' = length ys + length ps\<rparr>
          | Some p \<Rightarrow> Returned p empty_result)"
      proof (cases rule: conclude_cases)
        case encoding_fault
        with v old show ?thesis by simp
      next
        case not_checked
        with v old show ?thesis by simp
      next
        case (mismatch p)
        then show ?thesis by simp
      next
        case agreed
        then have "reference_exit yr ys = None"
          by (simp add: reference_exit_None)
        with agreed show ?thesis by simp
      qed
      then have chk: chk and ne: "ys \<noteq> []" "ps \<noteq> []"
        and sw: "snd w' = snd w3 @ [?gw, SerializeForm_call yT ?d, SerializeForm_call wproof ?d,
            Validate_y_ref]"
        and oc: "outcome_of r = (case reference_exit yr ys of
            None \<Rightarrow> Returned Proof_done
              \<lparr>data = Some (ys @ ps), length' = length ys + length ps\<rparr>
          | Some p \<Rightarrow> Returned p empty_result)"
        by blast+
      have ev_eq: "events ?run = snd w'" and ret_eq: "returned ?run = outcome_of r"
        using generated(4) by simp_all
      have body: "events ?run = snd w3 @ [?gw, SerializeForm_call yT ?d,
            SerializeForm_call wproof ?d, Validate_y_ref] \<and>
        (\<forall>ev\<in>set (snd w3). stage ev \<le> 2) \<and> length (filter is_squaring (snd w3)) = unat n \<and>
        GenerateWesolowski P yT x D ims n (scast (plan_k P n)) (scast (plan_l P n)) = Inr wproof \<and>
        SerializeForm P yT ?d = Inr ys \<and> SerializeForm P wproof ?d = Inr ps \<and>
        ys \<noteq> [] \<and> ps \<noteq> [] \<and>
        returned ?run = (case reference_exit yr ys of
            None \<Rightarrow> Returned Proof_done
              \<lparr>data = Some (ys @ ps), length' = length ys + length ps\<rparr>
          | Some p \<Rightarrow> Returned p empty_result)"
        unfolding ev_eq ret_eq
        using sw generated(9) count serialized(1-3) ne oc by (intro conjI)
      have "\<exists>before y x D ims wproof d ys ps.
         events ?run =
           before @ [GenerateWesolowski_call y x D ims n (scast (plan_k P n)) (scast (plan_l P n)),
             SerializeForm_call y d, SerializeForm_call wproof d, Validate_y_ref] \<and>
         (\<forall>ev\<in>set before. stage ev \<le> 2) \<and> length (filter is_squaring before) = unat n \<and>
         GenerateWesolowski P y x D ims n (scast (plan_k P n)) (scast (plan_l P n)) = Inr wproof \<and>
         SerializeForm P y d = Inr ys \<and> SerializeForm P wproof d = Inr ps \<and>
         ys \<noteq> [] \<and> ps \<noteq> [] \<and>
         returned ?run =
           (case reference_exit yr ys of
              None \<Rightarrow> Returned Proof_done
                \<lparr>data = Some (ys @ ps), length' = length ys + length ps\<rparr>
            | Some p \<Rightarrow> Returned p empty_result)"
        by (rule exI [of _ "snd w3"], rule exI [of _ yT], rule exI [of _ x], rule exI [of _ D],
            rule exI [of _ ims], rule exI [of _ wproof], rule exI [of _ ?d], rule exI [of _ ys],
            rule exI [of _ ps])
          (rule body)
      with chk show ?thesis
        by (rule conjI)
    qed
  qed
qed

lemma toy_streaming_mismatch:
  "events (chiavdf_prove_one_weso_fast_streaming (toy_prims (2, 1)) 0 (Some [1]) (Some [2])
     (Some [7]) 8 5 initial_state) =
     [Init_chiavdf_runtime, CreateDiscriminant_call [1] 8, Root_call 251,
      DeserializeForm_call (- 251) [2], From_abd_call 2 0 (- 251),
      ApproximateParameters_call 5, Nudupl_form_call 2 (- 251) 3, Reduce_call 4,
      Nudupl_form_call 4 (- 251) 3, Reduce_call 16, Nudupl_form_call 16 (- 251) 3,
      Reduce_call 256, Nudupl_form_call 5 (- 251) 3, Reduce_call 25,
      Nudupl_form_call 25 (- 251) 3, Reduce_call 625,
      GenerateWesolowski_call 123 2 (- 251) [2, 16, 25] 5 1 2, SerializeForm_call 123 8,
      SerializeForm_call 44 8, Validate_y_ref]"
  "returned (chiavdf_prove_one_weso_fast_streaming (toy_prims (2, 1)) 0 (Some [1]) (Some [2])
     (Some [7]) 8 5 initial_state) = Returned Reference_content_mismatch empty_result"
  by code_simp+

theorem comparison_after_proof_witness:
  "returned (chiavdf_prove_one_weso_fast_streaming (toy_prims (2, 1)) 0 (Some [1]) (Some [2])
     (Some [7]) 8 5 initial_state) = Returned Reference_content_mismatch empty_result \<and>
   last (events (chiavdf_prove_one_weso_fast_streaming (toy_prims (2, 1)) 0 (Some [1]) (Some [2])
     (Some [7]) 8 5 initial_state)) = Validate_y_ref \<and>
   reference_exit (Some [7]) [123] = Some Reference_content_mismatch"
  using comparison_after_proof [of "toy_prims (2, 1)" 0 "Some [1]" "Some [2]" "Some [7]" True
      8 5 0 None 0 initial_state]
  by (simp add: toy_streaming_mismatch [unfolded chiavdf_prove_one_weso_fast_streaming_def]
      toy_streaming_mismatch reference_exit_def)

text \<open>
  C9. Once a proving call on thread \<open>t\<close> has reached the selection of the parameters (it
  called \<^verbatim>\<open>ApproximateParameters\<close>) and returned, the query of the last streaming
  parameters on thread \<open>t\<close> with three non-null output pointers returns true and writes
  the \<open>k\<close> and \<open>l\<close> of the plan of that call and the flag false. The record of a thread
  \<open>u\<close> is left as it was by a call on another thread, by a call that did not reach the
  selection of the parameters, and by the two setters; in the initial state it is not
  set. On a thread whose record is not set, or with a null output pointer, the query
  returns false and writes nothing. The query of the streaming statistics returns false
  in every state and writes nothing.
\<close>

theorem last_parameters_query:
  fixes P :: "'f prims"
  defines "run \<equiv> \<lambda>t ch xs yr chk bits n pi cb ud s.
    prove_one_weso_slow P t ch xs yr chk bits n pi cb ud s"
  shows
    "(ApproximateParameters_call n \<in> set (events (run t ch xs yr chk bits n pi cb ud s)) \<and>
      returned (run t ch xs yr chk bits n pi cb ud s) \<noteq> Undefined_behaviour \<longrightarrow>
        chiavdf_get_last_streaming_parameters t (Some a) (Some b) (Some c)
            (after (run t ch xs yr chk bits n pi cb ud s)) =
          (True, Some (plan_k P n), Some (plan_l P n), Some False)) \<and>
     (u \<noteq> t \<or> ApproximateParameters_call n \<notin> set (events (run t ch xs yr chk bits n pi cb ud s)) \<longrightarrow>
        last_streaming_parameters (after (run t ch xs yr chk bits n pi cb ud s)) u =
          last_streaming_parameters s u) \<and>
     last_streaming_parameters (chiavdf_set_bucket_memory_budget_bytes bytes s) u =
       last_streaming_parameters s u \<and>
     last_streaming_parameters (chiavdf_set_enable_streaming_stats v enable s) u =
       last_streaming_parameters s u \<and>
     \<not> last_set (last_streaming_parameters initial_state u) \<and>
     (\<not> last_set (last_streaming_parameters s u) \<or> oa = None \<or> ob = None \<or> oc = None \<longrightarrow>
        chiavdf_get_last_streaming_parameters u oa ob oc s = (False, oa, ob, oc)) \<and>
     chiavdf_get_last_streaming_stats u o1 o2 o3 o4 o5 s = (False, o1, o2, o3, o4, o5)"
proof -
  let ?run = "prove_one_weso_slow P t ch xs yr chk bits n pi cb ud s"
  note after = last_parameters_after [of ?run P t ch xs yr chk bits n pi cb ud s, OF refl]
  have a: "chiavdf_get_last_streaming_parameters t (Some a) (Some b) (Some c) (after ?run) =
      (True, Some (plan_k P n), Some (plan_l P n), Some False)"
    if "ApproximateParameters_call n \<in> set (events ?run)"
      and "returned ?run \<noteq> Undefined_behaviour"
  proof -
    from after that have "last_streaming_parameters (after ?run) =
         (last_streaming_parameters s)
           (t := \<lparr>last_k = plan_k P n, last_l = plan_l P n, last_tuned = False,
                   last_set = True\<rparr>)"
      by blast
    then show ?thesis
      by (simp add: chiavdf_get_last_streaming_parameters_def)
  qed
  have b: "last_streaming_parameters (after ?run) u = last_streaming_parameters s u"
    if "u \<noteq> t \<or> ApproximateParameters_call n \<notin> set (events ?run)"
  proof -
    from after consider
      "last_streaming_parameters (after ?run) = last_streaming_parameters s"
      | "ApproximateParameters_call n \<in> set (events ?run)"
        "last_streaming_parameters (after ?run) =
           (last_streaming_parameters s)
             (t := \<lparr>last_k = plan_k P n, last_l = plan_l P n, last_tuned = False,
                     last_set = True\<rparr>)"
      by blast
    then show ?thesis
    proof cases
      case 1
      then show ?thesis
        by simp
    next
      case 2
      with that have "u \<noteq> t"
        by blast
      with 2 show ?thesis
        by simp
    qed
  qed
  have c: "last_streaming_parameters (chiavdf_set_bucket_memory_budget_bytes bytes s) u =
       last_streaming_parameters s u"
    by (simp add: chiavdf_set_bucket_memory_budget_bytes_def)
  have d: "last_streaming_parameters (chiavdf_set_enable_streaming_stats v enable s) u =
       last_streaming_parameters s u"
    by (simp add: chiavdf_set_enable_streaming_stats_def)
  have e: "\<not> last_set (last_streaming_parameters initial_state u)"
    by (simp add: initial_state_def default_parameters_def)
  have f: "chiavdf_get_last_streaming_parameters u oa ob oc s = (False, oa, ob, oc)"
    if "\<not> last_set (last_streaming_parameters s u) \<or> oa = None \<or> ob = None \<or> oc = None"
    using that by (auto simp: chiavdf_get_last_streaming_parameters_def)
  have g: "chiavdf_get_last_streaming_stats u o1 o2 o3 o4 o5 s = (False, o1, o2, o3, o4, o5)"
    by (simp add: chiavdf_get_last_streaming_stats_def)
  from a b c d e f g show ?thesis
    unfolding run_def by blast
qed

lemma toy_selected:
  "ApproximateParameters_call 5 \<in> set (events (prove_one_weso_slow (toy_prims (2, 1)) 0
     (Some [1]) (Some [2]) None False 8 5 2 (Some (Callback 7)) 9 initial_state))"
  by (simp add: toy_plain_run)

theorem last_parameters_query_witness:
  "chiavdf_get_last_streaming_parameters 0 (Some 0) (Some 0) (Some True)
     (after (prove_one_weso_slow (toy_prims (2, 1)) 0 (Some [1]) (Some [2]) None False 8 5 2
        (Some (Callback 7)) 9 initial_state)) = (True, Some 1, Some 2, Some False) \<and>
   last_streaming_parameters
     (after (prove_one_weso_slow (toy_prims (2, 1)) 0 (Some [1]) (Some [2]) None False 8 5 2
        (Some (Callback 7)) 9 initial_state)) 1 = default_parameters \<and>
   chiavdf_get_last_streaming_parameters 1 (Some 0) (Some 0) (Some True) initial_state =
     (False, Some 0, Some 0, Some True) \<and>
   chiavdf_get_last_streaming_stats 0 (Some 0) (Some 0) (Some 0) (Some 0) (Some 0)
     (after (prove_one_weso_slow (toy_prims (2, 1)) 0 (Some [1]) (Some [2]) None False 8 5 2
        (Some (Callback 7)) 9 initial_state)) = (False, Some 0, Some 0, Some 0, Some 0, Some 0)"
proof -
  note q = last_parameters_query [where P = "toy_prims (2, 1)" and t = 0 and ch = "Some [1]"
      and xs = "Some [2]" and yr = None and chk = False and bits = 8 and n = 5 and pi = 2
      and cb = "Some (Callback 7)" and ud = 9 and s = initial_state and u = 1
      and oa = "Some 0" and ob = "Some 0" and oc = "Some True"]
  have p: "plan_k (toy_prims (2, 1)) 5 = 1" "plan_l (toy_prims (2, 1)) 5 = 2"
    by (simp_all add: plan_k_def plan_l_def select_parameters_def toy_prims_def)
  have r: "returned (prove_one_weso_slow (toy_prims (2, 1)) 0 (Some [1]) (Some [2]) None False
      8 5 2 (Some (Callback 7)) 9 initial_state) \<noteq> Undefined_behaviour"
    by (simp add: toy_plain_run)
  from q [of 0 0 True] toy_selected r p
  have 1: "chiavdf_get_last_streaming_parameters 0 (Some 0) (Some 0) (Some True)
     (after (prove_one_weso_slow (toy_prims (2, 1)) 0 (Some [1]) (Some [2]) None False 8 5 2
        (Some (Callback 7)) 9 initial_state)) = (True, Some 1, Some 2, Some False)"
    by simp
  from q have 2: "last_streaming_parameters
     (after (prove_one_weso_slow (toy_prims (2, 1)) 0 (Some [1]) (Some [2]) None False 8 5 2
        (Some (Callback 7)) 9 initial_state)) 1 = default_parameters"
    by (simp add: initial_state_def)
  from q have 3: "chiavdf_get_last_streaming_parameters 1 (Some 0) (Some 0) (Some True)
      initial_state = (False, Some 0, Some 0, Some True)"
    by simp
  from q have 4: "chiavdf_get_last_streaming_stats 0 (Some 0) (Some 0) (Some 0) (Some 0) (Some 0)
     (after (prove_one_weso_slow (toy_prims (2, 1)) 0 (Some [1]) (Some [2]) None False 8 5 2
        (Some (Callback 7)) 9 initial_state)) = (False, Some 0, Some 0, Some 0, Some 0, Some 0)"
    by (simp add: chiavdf_get_last_streaming_stats_def)
  from 1 2 3 4 show ?thesis
    by (intro conjI)
qed




text \<open>
  C4, as the specification states it, fails for a run that is cut short in its loop: the
  calls made are those due up to the squarings completed, so the last count reported is
  not \<open>T\<close> and there are fewer than \<open>T\<close> over \<open>P\<close> of them. With the small library whose
  fifth reduction throws, \<open>T = 5\<close> and \<open>P = 2\<close>, the callback is called with 2 and with 4
  and the call returns the empty result.
\<close>

theorem progress_cut_short_counterexample:
  "(2 :: uint64_t) \<noteq> 0 \<and>
   progress_calls (events (prove_one_weso_slow toy_late 0 (Some [1]) (Some [2]) None False 8 5 2
     (Some (Callback 7)) 9 initial_state)) =
     [Progress_call (Callback 7) 2 9, Progress_call (Callback 7) 4 9] \<and>
   last (map reported (progress_calls (events (prove_one_weso_slow toy_late 0 (Some [1])
     (Some [2]) None False 8 5 2 (Some (Callback 7)) 9 initial_state)))) \<noteq> 5 \<and>
   length (progress_calls (events (prove_one_weso_slow toy_late 0 (Some [1]) (Some [2]) None
     False 8 5 2 (Some (Callback 7)) 9 initial_state))) \<noteq> ceil_div 5 2 \<and>
   returned (prove_one_weso_slow toy_late 0 (Some [1]) (Some [2]) None False 8 5 2
     (Some (Callback 7)) 9 initial_state) =
     Returned (Exception_caught (Exn ''reduce'')) empty_result"
  by code_simp

text \<open>
  C4, amended. In every call with a callback and a cadence \<open>P\<close> other than zero, with \<open>m\<close>
  the number of squarings the call completed, at most \<open>T\<close>: the calls of the callback are
  exactly those for the counts \<open>d\<close> from 1 to \<open>m\<close> with \<open>d = T\<close> or \<open>d\<close> a multiple of \<open>P\<close>,
  in increasing order, each with the callback's user data, and each is made when exactly
  the count it reports has been completed. The counts reported increase strictly. When
  the loop runs to its end (the call goes on to generate the proof), \<open>m\<close> is \<open>T\<close>: the last
  count reported is \<open>T\<close> and there are \<open>T\<close> over \<open>P\<close> calls, rounded up. A call cut short
  in the loop, by an exception of the library or of the callback, makes the calls due up
  to there and no more.
\<close>

theorem progress_reports:
  assumes "pi \<noteq> 0"
  shows "completed P (events (prove_one_weso_slow P t ch xs yr chk bits n pi (Some c) ud s)) \<le>
           unat n \<and>
         progress_calls (events (prove_one_weso_slow P t ch xs yr chk bits n pi (Some c) ud s)) =
           map (\<lambda>d. Progress_call c (word_of_nat d) ud)
             (filter (\<lambda>d. d = unat n \<or> d mod unat pi = 0)
               [1..<Suc (completed P
                  (events (prove_one_weso_slow P t ch xs yr chk bits n pi (Some c) ud s)))]) \<and>
         map (\<lambda>ev. unat (reported ev))
           (progress_calls (events (prove_one_weso_slow P t ch xs yr chk bits n pi (Some c) ud s))) =
           completed_at P 0 (events (prove_one_weso_slow P t ch xs yr chk bits n pi (Some c) ud s)) \<and>
         sorted_wrt (<) (map reported
           (progress_calls (events (prove_one_weso_slow P t ch xs yr chk bits n pi (Some c) ud s)))) \<and>
         ((\<exists>ev\<in>set (events (prove_one_weso_slow P t ch xs yr chk bits n pi (Some c) ud s)).
             is_proof_generation ev) \<longrightarrow>
          completed P (events (prove_one_weso_slow P t ch xs yr chk bits n pi (Some c) ud s)) =
            unat n \<and>
          last (map reported
            (progress_calls (events (prove_one_weso_slow P t ch xs yr chk bits n pi (Some c) ud s)))) =
            n \<and>
          length (progress_calls (events (prove_one_weso_slow P t ch xs yr chk bits n pi (Some c) ud s))) =
            ceil_div (unat n) (unat pi))"
proof -
  let ?run = "prove_one_weso_slow P t ch xs yr chk bits n pi (Some c) ud s"
  from run_paced [OF assms, of P c ud n t ch xs yr chk bits s] obtain m where
    p: "paced P c ud (unat n) (unat pi) m (events ?run)"
    and full: "(\<exists>ev\<in>set (events ?run). is_proof_generation ev) \<longrightarrow> m = unat n"
    by blast
  from p have le: "m \<le> unat n" and m: "completed P (events ?run) = m"
    and pc: "progress_calls (events ?run) =
      map (\<lambda>d. Progress_call c (word_of_nat d) ud) (due (unat n) (unat pi) m)"
    and at: "completed_at P 0 (events ?run) = due (unat n) (unat pi) m"
    by (simp_all add: paced_def)
  have rep: "map reported (progress_calls (events ?run)) =
      map word_of_nat (due (unat n) (unat pi) m)"
    by (simp add: pc comp_def)
  have a: "completed P (events ?run) \<le> unat n"
    using le m by simp
  have b: "progress_calls (events ?run) =
      map (\<lambda>d. Progress_call c (word_of_nat d) ud)
        (filter (\<lambda>d. d = unat n \<or> d mod unat pi = 0) [1..<Suc (completed P (events ?run))])"
    unfolding m using pc by (simp only: due_def)
  have "map (\<lambda>ev. unat (reported ev)) (progress_calls (events ?run)) =
      map (\<lambda>d. unat (word_of_nat d :: uint64_t)) (due (unat n) (unat pi) m)"
    by (simp add: pc comp_def)
  also have "\<dots> = due (unat n) (unat pi) m"
    using le by (rule unat_due_le)
  finally have c: "map (\<lambda>ev. unat (reported ev)) (progress_calls (events ?run)) =
      completed_at P 0 (events ?run)"
    using at by simp
  have d: "sorted_wrt (<) (map reported (progress_calls (events ?run)))"
    unfolding rep using le by (rule sorted_word_of_nat_due_le)
  have e: "completed P (events ?run) = unat n \<and>
      last (map reported (progress_calls (events ?run))) = n \<and>
      length (progress_calls (events ?run)) = ceil_div (unat n) (unat pi)"
    if g: "\<exists>ev\<in>set (events ?run). is_proof_generation ev"
  proof -
    from g full have mn: "m = unat n"
      by blast
    from g obtain ev where "ev \<in> set (events ?run)" "3 \<le> stage ev"
      by (auto dest: stage_proof_generation)
    then have "n \<noteq> 0"
      by (cases rule: reached_proof_cases)
    then have n: "0 < unat n"
      by (simp add: unat_gt_0)
    from assms have pp: "0 < unat pi"
      by (simp add: unat_gt_0)
    have "last (map word_of_nat (due (unat n) (unat pi) (unat n))) =
        (word_of_nat (unat n) :: uint64_t)"
      by (simp add: due_last [OF n])
    then have l: "last (map reported (progress_calls (events ?run))) = n"
      by (simp add: rep mn)
    have len: "length (progress_calls (events ?run)) = ceil_div (unat n) (unat pi)"
      by (simp add: pc mn length_due [OF n pp])
    from m mn l len show ?thesis
      by simp
  qed
  then have e': "(\<exists>ev\<in>set (events ?run). is_proof_generation ev) \<longrightarrow>
      completed P (events ?run) = unat n \<and>
      last (map reported (progress_calls (events ?run))) = n \<and>
      length (progress_calls (events ?run)) = ceil_div (unat n) (unat pi)"
    by (rule impI)
  from a b c d e' show ?thesis
    by (intro conjI)
qed

lemma toy_progress:
  "progress_calls (events (prove_one_weso_slow (toy_prims (2, 1)) 0 (Some [1]) (Some [2]) None
     False 8 5 2 (Some (Callback 7)) 9 initial_state)) =
   [Progress_call (Callback 7) 2 9, Progress_call (Callback 7) 4 9, Progress_call (Callback 7) 5 9]"
  by (simp add: toy_plain_run progress_calls_def)

lemma toy_late_progress:
  "progress_calls (events (prove_one_weso_slow toy_late 0 (Some [1]) (Some [2]) None False 8 5 2
     (Some (Callback 7)) 9 initial_state)) =
     [Progress_call (Callback 7) 2 9, Progress_call (Callback 7) 4 9]"
  "completed toy_late (events (prove_one_weso_slow toy_late 0 (Some [1]) (Some [2]) None False
     8 5 2 (Some (Callback 7)) 9 initial_state)) = 4"
  by code_simp+

theorem progress_reports_witness:
  "progress_calls (events (prove_one_weso_slow (toy_prims (2, 1)) 0 (Some [1]) (Some [2]) None
     False 8 5 2 (Some (Callback 7)) 9 initial_state)) =
   [Progress_call (Callback 7) 2 9, Progress_call (Callback 7) 4 9, Progress_call (Callback 7) 5 9] \<and>
   completed (toy_prims (2, 1)) (events (prove_one_weso_slow (toy_prims (2, 1)) 0 (Some [1])
     (Some [2]) None False 8 5 2 (Some (Callback 7)) 9 initial_state)) = 5 \<and>
   last (map reported (progress_calls (events (prove_one_weso_slow (toy_prims (2, 1)) 0 (Some [1])
     (Some [2]) None False 8 5 2 (Some (Callback 7)) 9 initial_state)))) = 5 \<and>
   length (progress_calls (events (prove_one_weso_slow (toy_prims (2, 1)) 0 (Some [1])
     (Some [2]) None False 8 5 2 (Some (Callback 7)) 9 initial_state))) = ceil_div 5 2 \<and>
   completed_at toy_late 0 (events (prove_one_weso_slow toy_late 0 (Some [1]) (Some [2]) None
     False 8 5 2 (Some (Callback 7)) 9 initial_state)) = [2, 4]"
proof -
  have a: "(2 :: uint64_t) \<noteq> 0"
    by simp
  have b: "\<exists>ev\<in>set (events (prove_one_weso_slow (toy_prims (2, 1)) 0 (Some [1]) (Some [2]) None
      False 8 5 2 (Some (Callback 7)) 9 initial_state)). is_proof_generation ev"
    by (simp add: toy_plain_run)
  note th = progress_reports [OF a, of "toy_prims (2, 1)" 0 "Some [1]" "Some [2]" None False 8 5
      "Callback 7" 9 initial_state]
  note late = progress_reports [OF a, of toy_late 0 "Some [1]" "Some [2]" None False 8 5
      "Callback 7" 9 initial_state]
  from th b have full: "completed (toy_prims (2, 1)) (events (prove_one_weso_slow
        (toy_prims (2, 1)) 0 (Some [1]) (Some [2]) None False 8 5 2 (Some (Callback 7)) 9
        initial_state)) = unat (5 :: uint64_t) \<and>
      last (map reported (progress_calls (events (prove_one_weso_slow (toy_prims (2, 1)) 0
        (Some [1]) (Some [2]) None False 8 5 2 (Some (Callback 7)) 9 initial_state)))) = 5 \<and>
      length (progress_calls (events (prove_one_weso_slow (toy_prims (2, 1)) 0 (Some [1])
        (Some [2]) None False 8 5 2 (Some (Callback 7)) 9 initial_state))) =
        ceil_div (unat (5 :: uint64_t)) (unat (2 :: uint64_t))"
    by blast
  then have 1: "completed (toy_prims (2, 1)) (events (prove_one_weso_slow
        (toy_prims (2, 1)) 0 (Some [1]) (Some [2]) None False 8 5 2 (Some (Callback 7)) 9
        initial_state)) = 5"
    and 2: "last (map reported (progress_calls (events (prove_one_weso_slow (toy_prims (2, 1)) 0
        (Some [1]) (Some [2]) None False 8 5 2 (Some (Callback 7)) 9 initial_state)))) = 5"
    and 3: "length (progress_calls (events (prove_one_weso_slow (toy_prims (2, 1)) 0 (Some [1])
        (Some [2]) None False 8 5 2 (Some (Callback 7)) 9 initial_state))) = ceil_div 5 2"
    by simp_all
  from late have "map (\<lambda>ev. unat (reported ev)) (progress_calls (events (prove_one_weso_slow
      toy_late 0 (Some [1]) (Some [2]) None False 8 5 2 (Some (Callback 7)) 9 initial_state))) =
      completed_at toy_late 0 (events (prove_one_weso_slow toy_late 0 (Some [1]) (Some [2])
        None False 8 5 2 (Some (Callback 7)) 9 initial_state))"
    by blast
  then have 4: "completed_at toy_late 0 (events (prove_one_weso_slow toy_late 0 (Some [1])
      (Some [2]) None False 8 5 2 (Some (Callback 7)) 9 initial_state)) = [2, 4]"
    by (simp add: toy_late_progress)
  from toy_progress 1 2 3 4 show ?thesis
    by (intro conjI)
qed

text \<open>
  C3. Two calls given the same library, challenge, input element, discriminant size and
  iteration count that both return a buffer return the same bytes, \<open>y\<close> then the proof,
  whatever the thread, the cadence, the callback and its user data, the reference and its
  switch, and whatever the state of the process, the memory budget included. What a call
  returns, buffer or not, is the same in every state of the process and on every thread:
  the operation never reads the memory budget. And as long as the callbacks return, what
  the call returns does not depend on the cadence or the callback either. (A callback that
  throws is caught like any exception and makes the call return the empty result.)
\<close>

theorem deterministic_output:
  "(returned (prove_one_weso_slow P t1 ch xs yr chk bits n pi1 cb1 ud1 s1) = Returned p res \<and>
    res \<noteq> empty_result \<and>
    returned (prove_one_weso_slow P t2 ch xs yr' chk' bits n pi2 cb2 ud2 s2) = Returned p' res' \<and>
    res' \<noteq> empty_result \<longrightarrow> res = res') \<and>
   returned (prove_one_weso_slow P t1 ch xs yr chk bits n pi1 cb1 ud1 s1) =
     returned (prove_one_weso_slow P t2 ch xs yr chk bits n pi1 cb1 ud1 s2) \<and>
   returned (prove_one_weso_slow P t1 ch xs yr chk bits n pi1 cb1 ud1
       (chiavdf_set_bucket_memory_budget_bytes bytes s1)) =
     returned (prove_one_weso_slow P t1 ch xs yr chk bits n pi1 cb1 ud1 s1) \<and>
   ((\<forall>c d. cb1 = Some c \<longrightarrow> invoke P c d ud1 = Inr ()) \<and>
    (\<forall>c d. cb2 = Some c \<longrightarrow> invoke P c d ud2 = Inr ()) \<longrightarrow>
    returned (prove_one_weso_slow P t1 ch xs yr chk bits n pi1 cb1 ud1 s1) =
      returned (prove_one_weso_slow P t2 ch xs yr chk bits n pi2 cb2 ud2 s2))"
proof -
  have a: "res = res'"
    if "returned (prove_one_weso_slow P t1 ch xs yr chk bits n pi1 cb1 ud1 s1) = Returned p res \<and>
      res \<noteq> empty_result \<and>
      returned (prove_one_weso_slow P t2 ch xs yr' chk' bits n pi2 cb2 ud2 s2) =
        Returned p' res' \<and>
      res' \<noteq> empty_result"
  proof -
    from that have 1: "run_value P ch xs yr chk bits n pi1 cb1 ud1 = Returned p res"
      and 2: "res \<noteq> empty_result"
      and 3: "run_value P ch xs yr' chk' bits n pi2 cb2 ud2 = Returned p' res'"
      and 4: "res' \<noteq> empty_result"
      by (simp_all add: returned_value)
    from run_value_buffer [OF 1 2] obtain c xb where
      "ch = Some c" "xs = Some xb" "try_value P c xb yr chk bits n 0 None 0 = Inr res"
      by blast
    moreover from run_value_buffer [OF 3 4] obtain c' xb' where
      "ch = Some c'" "xs = Some xb'" "try_value P c' xb' yr' chk' bits n 0 None 0 = Inr res'"
      by blast
    ultimately show ?thesis
      by (auto dest: try_value_Inr)
  qed
  have b: "returned (prove_one_weso_slow P t1 ch xs yr chk bits n pi1 cb1 ud1 s1) =
      returned (prove_one_weso_slow P t2 ch xs yr chk bits n pi1 cb1 ud1 s2)"
    by (simp only: returned_value)
  have c: "returned (prove_one_weso_slow P t1 ch xs yr chk bits n pi1 cb1 ud1
        (chiavdf_set_bucket_memory_budget_bytes bytes s1)) =
      returned (prove_one_weso_slow P t1 ch xs yr chk bits n pi1 cb1 ud1 s1)"
    by (simp only: returned_value)
  have d: "returned (prove_one_weso_slow P t1 ch xs yr chk bits n pi1 cb1 ud1 s1) =
      returned (prove_one_weso_slow P t2 ch xs yr chk bits n pi2 cb2 ud2 s2)"
    if q: "(\<forall>c d. cb1 = Some c \<longrightarrow> invoke P c d ud1 = Inr ()) \<and>
      (\<forall>c d. cb2 = Some c \<longrightarrow> invoke P c d ud2 = Inr ())"
  proof -
    from run_value_callback [of P ch xs yr chk bits n pi1 cb1 ud1] q
    have "run_value P ch xs yr chk bits n pi1 cb1 ud1 = run_value P ch xs yr chk bits n 0 None 0"
      by auto
    moreover from run_value_callback [of P ch xs yr chk bits n pi2 cb2 ud2] q
    have "run_value P ch xs yr chk bits n pi2 cb2 ud2 = run_value P ch xs yr chk bits n 0 None 0"
      by auto
    ultimately show ?thesis
      by (simp only: returned_value)
  qed
  from a have a': "returned (prove_one_weso_slow P t1 ch xs yr chk bits n pi1 cb1 ud1 s1) =
      Returned p res \<and>
    res \<noteq> empty_result \<and>
    returned (prove_one_weso_slow P t2 ch xs yr' chk' bits n pi2 cb2 ud2 s2) = Returned p' res' \<and>
    res' \<noteq> empty_result \<longrightarrow> res = res'"
    by (rule impI)
  from d have d': "(\<forall>c d. cb1 = Some c \<longrightarrow> invoke P c d ud1 = Inr ()) \<and>
    (\<forall>c d. cb2 = Some c \<longrightarrow> invoke P c d ud2 = Inr ()) \<longrightarrow>
    returned (prove_one_weso_slow P t1 ch xs yr chk bits n pi1 cb1 ud1 s1) =
      returned (prove_one_weso_slow P t2 ch xs yr chk bits n pi2 cb2 ud2 s2)"
    by (rule impI)
  from a' b c d' show ?thesis
    by (intro conjI)
qed

lemma toy_loud_run:
  "returned (prove_one_weso_slow toy_loud 0 (Some [1]) (Some [2]) None False 8 5 2
     (Some (Callback 7)) 9 initial_state) =
     Returned (Exception_caught (Exn ''callback'')) empty_result"
  "returned (prove_one_weso_slow toy_loud 0 (Some [1]) (Some [2]) None False 8 5 0 None 0
     initial_state) = Returned Proof_done \<lparr>data = Some [123, 44], length' = 2\<rparr>"
  by code_simp+

theorem deterministic_output_witness:
  "returned (prove_one_weso_slow (toy_prims (2, 1)) 0 (Some [1]) (Some [2]) None False 8 5 2
     (Some (Callback 7)) 9 initial_state) =
     Returned Proof_done \<lparr>data = Some [123, 44], length' = 2\<rparr> \<and>
   returned (prove_one_weso_slow (toy_prims (2, 1)) 3 (Some [1]) (Some [2]) None False 8 5 0
     None 0 (chiavdf_set_bucket_memory_budget_bytes 4096 initial_state)) =
     Returned Proof_done \<lparr>data = Some [123, 44], length' = 2\<rparr> \<and>
   returned (prove_one_weso_slow (toy_prims (2, 1)) 3 (Some [1]) (Some [2]) (Some [123]) True 8 5
     0 None 0 (chiavdf_set_bucket_memory_budget_bytes 4096 initial_state)) =
     Returned Proof_done \<lparr>data = Some [123, 44], length' = 2\<rparr> \<and>
   result (returned (prove_one_weso_slow (toy_prims (2, 1)) 0 (Some [1]) (Some [2]) None False 8
     5 2 (Some (Callback 7)) 9 initial_state)) =
     result (returned (prove_one_weso_slow (toy_prims (2, 1)) 3 (Some [1]) (Some [2])
       (Some [123]) True 8 5 0 None 0
       (chiavdf_set_bucket_memory_budget_bytes 4096 initial_state)))"
proof -
  let ?R = "\<lparr>data = Some [123 :: uint8_t, 44], length' = 2\<rparr>"
  have a: "returned (prove_one_weso_slow (toy_prims (2, 1)) 0 (Some [1]) (Some [2]) None False 8
      5 2 (Some (Callback 7)) 9 initial_state) = Returned Proof_done ?R"
    by (rule toy_plain_run)
  have s: "returned (prove_one_weso_slow (toy_prims (2, 1)) 0 (Some [1]) (Some [2]) (Some [123])
      True 8 5 0 None 0 initial_state) = Returned Proof_done ?R"
    using toy_streaming_run by (simp only: chiavdf_prove_one_weso_fast_streaming_def)
  have q: "(\<forall>c d. Some (Callback 7) = Some c \<longrightarrow> invoke (toy_prims (2, 1)) c d 9 = Inr ()) \<and>
      (\<forall>c d. None = Some c \<longrightarrow> invoke (toy_prims (2, 1)) c d 0 = Inr ())"
    by (simp add: toy_prims_def)
  have ne: "?R \<noteq> empty_result"
    by (simp add: empty_result_def)
  note plain = deterministic_output [where P = "toy_prims (2, 1)" and ?t1.0 = 0
      and ch = "Some [1]" and xs = "Some [2]" and yr = None and chk = False and bits = 8
      and n = 5 and ?pi1.0 = 2 and ?cb1.0 = "Some (Callback 7)" and ?ud1.0 = 9
      and ?s1.0 = initial_state and ?t2.0 = 3 and ?pi2.0 = 0 and ?cb2.0 = None and ?ud2.0 = 0
      and ?s2.0 = "chiavdf_set_bucket_memory_budget_bytes 4096 initial_state"
      and yr' = "Some [123]" and chk' = True and p = Proof_done and res = ?R
      and p' = Proof_done and res' = ?R]
  note moved = deterministic_output [where P = "toy_prims (2, 1)" and ?t1.0 = 0
      and ch = "Some [1]" and xs = "Some [2]" and yr = "Some [123]" and chk = True and bits = 8
      and n = 5 and ?pi1.0 = 0 and ?cb1.0 = None and ?ud1.0 = 0
      and ?s1.0 = initial_state and ?t2.0 = 3
      and ?s2.0 = "chiavdf_set_bucket_memory_budget_bytes 4096 initial_state"]
  from plain q have "returned (prove_one_weso_slow (toy_prims (2, 1)) 0 (Some [1]) (Some [2]) None
      False 8 5 2 (Some (Callback 7)) 9 initial_state) =
    returned (prove_one_weso_slow (toy_prims (2, 1)) 3 (Some [1]) (Some [2]) None False 8 5 0
      None 0 (chiavdf_set_bucket_memory_budget_bytes 4096 initial_state))"
    by blast
  with a have b: "returned (prove_one_weso_slow (toy_prims (2, 1)) 3 (Some [1]) (Some [2]) None
      False 8 5 0 None 0 (chiavdf_set_bucket_memory_budget_bytes 4096 initial_state)) =
      Returned Proof_done ?R"
    by simp
  from moved have "returned (prove_one_weso_slow (toy_prims (2, 1)) 0 (Some [1]) (Some [2])
      (Some [123]) True 8 5 0 None 0 initial_state) =
    returned (prove_one_weso_slow (toy_prims (2, 1)) 3 (Some [1]) (Some [2]) (Some [123]) True
      8 5 0 None 0 (chiavdf_set_bucket_memory_budget_bytes 4096 initial_state))"
    by blast
  with s have c: "returned (prove_one_weso_slow (toy_prims (2, 1)) 3 (Some [1]) (Some [2])
      (Some [123]) True 8 5 0 None 0
      (chiavdf_set_bucket_memory_budget_bytes 4096 initial_state)) = Returned Proof_done ?R"
    by simp
  from plain a c ne have "?R = ?R"
    by blast
  with a c have d: "result (returned (prove_one_weso_slow (toy_prims (2, 1)) 0 (Some [1])
      (Some [2]) None False 8 5 2 (Some (Callback 7)) 9 initial_state)) =
    result (returned (prove_one_weso_slow (toy_prims (2, 1)) 3 (Some [1]) (Some [2])
      (Some [123]) True 8 5 0 None 0
      (chiavdf_set_bucket_memory_budget_bytes 4096 initial_state)))"
    by simp
  from a b c d show ?thesis
    by (intro conjI)
qed

end
